theory Spec2Isabelle
  imports Complex_Main "HOL-Library.AList"
begin

section \<open>Strings of the host language\<close>

text \<open>
  The matcher \<^verbatim>\<open>merge-product-media.ts\<close> works on JavaScript strings. A string is
  modelled as a \<^typ>\<open>string\<close> whose characters are read as code units below 256
  (the Latin-1 range), so \<open>length\<close> is the \<^verbatim>\<open>.length\<close> of the source. In that
  range the white space of \<^verbatim>\<open>String.prototype.trim\<close> and of the regular-expression
  class \<^verbatim>\<open>\s\<close> is TAB, LF, VT, FF, CR, SPACE and NBSP.
\<close>

definition isSpace :: "char \<Rightarrow> bool" where
  "isSpace c = (c = CHR 0x09 \<or> c = CHR 0x0A \<or> c = CHR 0x0B \<or> c = CHR 0x0C
                \<or> c = CHR 0x0D \<or> c = CHR 0x20 \<or> c = CHR 0xA0)"

definition trim :: "string \<Rightarrow> string" where
  \<comment> \<open>\<^verbatim>\<open>s.trim()\<close>\<close>
  "trim s = rev (dropWhile isSpace (rev (dropWhile isSpace s)))"

definition startsWith :: "string \<Rightarrow> string \<Rightarrow> bool" where
  \<comment> \<open>\<^verbatim>\<open>s.startsWith(t)\<close>\<close>
  "startsWith s t = (take (length t) s = t)"

definition endsWith :: "string \<Rightarrow> string \<Rightarrow> bool" where
  \<comment> \<open>\<^verbatim>\<open>s.endsWith(t)\<close>\<close>
  "endsWith s t = startsWith (rev s) (rev t)"

fun includesStr :: "string \<Rightarrow> string \<Rightarrow> bool" where
  \<comment> \<open>\<^verbatim>\<open>s.includes(t)\<close>: \<open>t\<close> occurs in \<open>s\<close> as a contiguous substring\<close>
  "includesStr [] t = (t = [])"
| "includesStr (c # s) t = (startsWith (c # s) t \<or> includesStr s t)"

fun replaceFirst :: "string \<Rightarrow> string \<Rightarrow> string \<Rightarrow> string" where
  \<comment> \<open>\<^verbatim>\<open>s.replace(pat, rep)\<close> with a string pattern: only the first occurrence\<close>
  "replaceFirst pat rep [] = (if pat = [] then rep else [])"
| "replaceFirst pat rep (c # s) =
     (if startsWith (c # s) pat then rep @ drop (length pat) (c # s)
      else c # replaceFirst pat rep s)"

function replaceAll :: "string \<Rightarrow> string \<Rightarrow> string \<Rightarrow> string" where
  \<comment> \<open>\<^verbatim>\<open>s.replaceAll(pat, rep)\<close> for a non-empty string pattern: every occurrence,
      left to right, the search resuming after each replaced occurrence\<close>
  "replaceAll pat rep [] = []"
| "replaceAll pat rep (c # s) =
     (if pat \<noteq> [] \<and> startsWith (c # s) pat
      then rep @ replaceAll pat rep (drop (length pat) (c # s))
      else c # replaceAll pat rep s)"
  by pat_completeness auto
termination
  by (relation "measure (\<lambda>(pat, rep, s). length s)") (auto simp: neq_Nil_conv)

definition toLowerChar :: "char \<Rightarrow> char" where
  \<comment> \<open>lower-casing of one code unit below 256: A-Z, and the Latin-1 capitals except the
      multiplication sign\<close>
  "toLowerChar c =
     (let n = (of_char c :: nat) in
      if (65 \<le> n \<and> n \<le> 90) \<or> (192 \<le> n \<and> n \<le> 222 \<and> n \<noteq> 215)
      then char_of (n + 32) else c)"

definition toLowerCase :: "string \<Rightarrow> string" where
  "toLowerCase s = map toLowerChar s"

fun splitOn :: "char \<Rightarrow> string \<Rightarrow> string \<Rightarrow> string list" where
  \<comment> \<open>\<^verbatim>\<open>s.split(sep)\<close> for a one-character separator; the second argument is the piece
      being read\<close>
  "splitOn sep cur [] = [cur]"
| "splitOn sep cur (c # s) =
     (if c = sep then cur # splitOn sep [] s else splitOn sep (cur @ [c]) s)"

definition truthy :: "string \<Rightarrow> bool" where
  \<comment> \<open>\<^verbatim>\<open>Boolean(s)\<close> of a string\<close>
  "truthy s = (s \<noteq> [])"

definition lastOpt :: "'a list \<Rightarrow> 'a option" where
  \<comment> \<open>\<^verbatim>\<open>xs[xs.length - 1]\<close>, \<open>None\<close> for \<^verbatim>\<open>undefined\<close>\<close>
  "lastOpt xs = (if xs = [] then None else Some (last xs))"

fun uniq :: "'a list \<Rightarrow> 'a list \<Rightarrow> 'a list" where
  \<comment> \<open>\<^verbatim>\<open>[...new Set(xs)]\<close>: insertion order, the first occurrence of each value kept;
      the first argument is the set so far\<close>
  "uniq seen [] = seen"
| "uniq seen (x # xs) = (if x \<in> set seen then uniq seen xs else uniq (seen @ [x]) xs)"

subsection \<open>Splitting by a regular expression\<close>

text \<open>
  \<^verbatim>\<open>s.split(re)\<close> for a regular expression without capture groups. The matcher \<open>m\<close>
  is the sticky match of \<open>re\<close> at the current position \<open>q\<close>: given the rest of the
  string from \<open>q\<close> it returns the length of the match, or \<open>None\<close>. \<open>cur\<close> is the piece
  between the end \<open>p\<close> of the last separator and \<open>q\<close>. As in the language definition, a
  failed match and an empty match at \<open>p\<close> advance \<open>q\<close> by one; any other match ends
  the piece and moves \<open>p\<close> and \<open>q\<close> behind the match.
\<close>

function splitLoop :: "(string \<Rightarrow> nat option) \<Rightarrow> string \<Rightarrow> string \<Rightarrow> string list" where
  "splitLoop m cur [] = [cur]"
| "splitLoop m cur (c # s) =
     (case m (c # s) of
        None \<Rightarrow> splitLoop m (cur @ [c]) s
      | Some n \<Rightarrow>
          if n = 0 \<and> cur = [] then splitLoop m (cur @ [c]) s
          else cur # splitLoop m [] (drop n (c # s)))"
  by pat_completeness auto
termination
  by (relation "measure (\<lambda>(m, cur, s). 2 * length s + (if cur = [] then 0 else 1))")
     (auto split: if_splits)

definition regexSplit :: "(string \<Rightarrow> nat option) \<Rightarrow> string \<Rightarrow> string list" where
  \<comment> \<open>an empty subject gives \<^verbatim>\<open>[]\<close> if the expression matches it and \<^verbatim>\<open>[""]\<close> if not\<close>
  "regexSplit m s = (if s = [] then (if m [] = None then [[]] else []) else splitLoop m [] s)"

section \<open>Splitting the legacy URLs\<close>

text \<open>
  The separator expression \<^verbatim>\<open>/\s*[\n,;]+\s*|\s{2,}/g\<close>. The first alternative lets
  \<^verbatim>\<open>\s*\<close> take the whole leading white space and gives characters back one at a time
  until \<^verbatim>\<open>[\n,;]+\<close> matches (a line feed is white space too); the rest is greedy and
  cannot fail. The second alternative is tried only when the first fails.
\<close>

definition isSepChar :: "char \<Rightarrow> bool" where
  \<comment> \<open>the class \<^verbatim>\<open>[\n,;]\<close>\<close>
  "isSepChar c = (c = CHR 0x0A \<or> c = CHR '','' \<or> c = CHR '';'')"

definition sepRunThenSpace :: "string \<Rightarrow> nat option" where
  \<comment> \<open>\<^verbatim>\<open>[\n,;]+\s*\<close> at the start of the string\<close>
  "sepRunThenSpace r =
     (let a = takeWhile isSepChar r in
      if a = [] then None
      else Some (length a + length (takeWhile isSpace (drop (length a) r))))"

fun backtrack :: "string \<Rightarrow> nat \<Rightarrow> nat option" where
  \<comment> \<open>\<^verbatim>\<open>\s*\<close> has taken \<open>k\<close> characters; on failure of the rest it takes one less\<close>
  "backtrack s 0 = sepRunThenSpace s"
| "backtrack s (Suc k) =
     (case sepRunThenSpace (drop (Suc k) s) of
        Some n \<Rightarrow> Some (Suc k + n)
      | None \<Rightarrow> backtrack s k)"

definition sepMatch :: "string \<Rightarrow> nat option" where
  "sepMatch s =
     (let w = length (takeWhile isSpace s) in
      case backtrack s w of
        Some n \<Rightarrow> Some n
      | None \<Rightarrow> if 2 \<le> w then Some w else None)"

definition splitOldUrls :: "string \<Rightarrow> string list" where
  "splitOldUrls oldUrls = filter truthy (map trim (regexSplit sepMatch oldUrls))"

text \<open>
  Two notions for stating what the split does: a payload character is one that no
  separator can contain, and a string has no double space if no two adjacent
  characters of it are both white space.
\<close>

definition isPayloadChar :: "char \<Rightarrow> bool" where
  "isPayloadChar c = (\<not> isSpace c \<and> \<not> isSepChar c)"

fun noDoubleSpace :: "string \<Rightarrow> bool" where
  "noDoubleSpace (a # b # r) = (\<not> (isSpace a \<and> isSpace b) \<and> noDoubleSpace (b # r))"
| "noDoubleSpace _ = True"

text \<open>
  The split as the specification words it. A separator is a stretch of commas,
  semicolons and white space that holds a comma, a semicolon or a line feed, or a
  stretch of two or more white-space characters. \<open>splitRuns\<close> reads the input from
  the left and cuts at every maximal stretch of non-payload characters that is a
  separator; \<open>splitOldUrlsSpec\<close> trims the pieces and drops the empty ones.
\<close>

definition isSeparator :: "string \<Rightarrow> bool" where
  "isSeparator r =
     ((list_all (\<lambda>c. \<not> isPayloadChar c) r \<and> list_ex isSepChar r)
      \<or> (list_all isSpace r \<and> 2 \<le> length r))"

function splitRuns :: "string \<Rightarrow> string \<Rightarrow> string list" where
  "splitRuns cur [] = [cur]"
| "splitRuns cur (c # s) =
     (let run = takeWhile (\<lambda>x. \<not> isPayloadChar x) (c # s) in
      if isSeparator run then cur # splitRuns [] (drop (length run) (c # s))
      else splitRuns (cur @ [c]) s)"
  by pat_completeness auto
termination
  by (relation "measure (\<lambda>(cur, s). length s)")
     (auto simp: isSeparator_def split: if_splits)

definition splitOldUrlsSpec :: "string \<Rightarrow> string list" where
  "splitOldUrlsSpec s = filter truthy (map trim (splitRuns [] s))"

section \<open>The URL class of the platform\<close>

text \<open>
  \<^verbatim>\<open>new URL(s)\<close>, the setters \<^verbatim>\<open>u.hash = ''\<close> and \<^verbatim>\<open>u.search = ''\<close>,
  \<^verbatim>\<open>u.toString()\<close> and \<^verbatim>\<open>u.pathname\<close> belong to the platform, not to the
  repository. The matcher is modelled over an arbitrary implementation of these five
  operations; \<open>newURL\<close> returns \<open>None\<close> where the constructor throws.
\<close>

record 'u url_api =
  newURL :: "string \<Rightarrow> 'u option"
  setHashEmpty :: "'u \<Rightarrow> 'u"
  setSearchEmpty :: "'u \<Rightarrow> 'u"
  toString :: "'u \<Rightarrow> string"
  pathname :: "'u \<Rightarrow> string"

subsection \<open>A reference implementation for plain web addresses\<close>

text \<open>
  For evaluation on concrete inputs: the platform's parser restricted to strings
  \<^verbatim>\<open>http://host/path?query#fragment\<close> (or \<^verbatim>\<open>https\<close>) with a host made of
  dot-separated lower-case words, a path without dot segments and only characters that
  the platform leaves as they are. On such a string it returns the components the
  platform returns. It rejects every other string; the platform, too, rejects a string
  that does not begin with a scheme (a letter, then letters, digits, \<^verbatim>\<open>+ - .\<close>, then a
  colon). Below it is applied to strings of these two kinds only.
\<close>

record simple_url =
  su_origin :: string
  su_path :: string
  su_query :: "string option"
  su_fragment :: "string option"

definition isLower :: "char \<Rightarrow> bool" where
  "isLower c = (97 \<le> (of_char c :: nat) \<and> (of_char c :: nat) \<le> 122)"

definition isDigit :: "char \<Rightarrow> bool" where
  "isDigit c = (48 \<le> (of_char c :: nat) \<and> (of_char c :: nat) \<le> 57)"

definition isUpper :: "char \<Rightarrow> bool" where
  "isUpper c = (65 \<le> (of_char c :: nat) \<and> (of_char c :: nat) \<le> 90)"

definition isPlainChar :: "char \<Rightarrow> bool" where
  \<comment> \<open>characters that the platform keeps unchanged in a path, a query and a fragment\<close>
  "isPlainChar c = (isLower c \<or> isUpper c \<or> isDigit c \<or> c = CHR ''-'' \<or> c = CHR ''_''
                    \<or> c = CHR ''~'' \<or> c = CHR ''.'' \<or> c = CHR ''/'' \<or> c = CHR ''=''
                    \<or> c = CHR ''&'')"

definition simpleHostOk :: "string \<Rightarrow> bool" where
  "simpleHostOk h = list_all (\<lambda>w. w \<noteq> [] \<and> list_all isLower w) (splitOn CHR ''.'' [] h)"

definition simplePathOk :: "string \<Rightarrow> bool" where
  "simplePathOk p =
     (list_all isPlainChar p
      \<and> list_all (\<lambda>seg. seg \<noteq> ''.'' \<and> seg \<noteq> ''..'') (splitOn CHR ''/'' [] p))"

definition simpleAfterScheme :: "string \<Rightarrow> string \<Rightarrow> simple_url option" where
  "simpleAfterScheme scheme rest =
     (let host = takeWhile (\<lambda>c. c \<noteq> CHR ''/'' \<and> c \<noteq> CHR ''?'' \<and> c \<noteq> CHR ''#'') rest;
          r1 = drop (length host) rest;
          path = takeWhile (\<lambda>c. c \<noteq> CHR ''?'' \<and> c \<noteq> CHR ''#'') r1;
          r2 = drop (length path) r1;
          qpart = (if startsWith r2 ''?'' then takeWhile (\<lambda>c. c \<noteq> CHR ''#'') r2 else []);
          r3 = drop (length qpart) r2
      in if simpleHostOk host \<and> simplePathOk path \<and> list_all isPlainChar (drop 1 qpart)
            \<and> list_all isPlainChar (drop 1 r3)
         then Some \<lparr> su_origin = scheme @ host,
                     su_path = (if path = [] then ''/'' else path),
                     su_query = (if qpart = [] then None else Some (drop 1 qpart)),
                     su_fragment = (if r3 = [] then None else Some (drop 1 r3)) \<rparr>
         else None)"

definition simpleNewURL :: "string \<Rightarrow> simple_url option" where
  "simpleNewURL s =
     (if startsWith s ''http://'' then simpleAfterScheme ''http://'' (drop 7 s)
      else if startsWith s ''https://'' then simpleAfterScheme ''https://'' (drop 8 s)
      else None)"

definition simpleToString :: "simple_url \<Rightarrow> string" where
  "simpleToString u =
     su_origin u @ su_path u
       @ (case su_query u of None \<Rightarrow> [] | Some q \<Rightarrow> CHR ''?'' # q)
       @ (case su_fragment u of None \<Rightarrow> [] | Some f \<Rightarrow> CHR ''#'' # f)"

definition simpleURL :: "simple_url url_api" where
  "simpleURL =
     \<lparr> newURL = simpleNewURL,
       setHashEmpty = (\<lambda>u. u\<lparr>su_fragment := None\<rparr>),
       setSearchEmpty = (\<lambda>u. u\<lparr>su_query := None\<rparr>),
       toString = simpleToString,
       pathname = su_path \<rparr>"

section \<open>Normalisation\<close>

definition unescapeSlashes :: "string \<Rightarrow> string" where
  \<comment> \<open>\<^verbatim>\<open>.replaceAll('\\/', '/')\<close>: the two characters backslash, slash become a slash\<close>
  "unescapeSlashes s = replaceAll [CHR 0x5C, CHR ''/''] ''/'' s"

definition normalizeUrlish :: "'u url_api \<Rightarrow> string \<Rightarrow> string" where
  "normalizeUrlish U input =
     (let s = unescapeSlashes (trim input) in
      case newURL U s of
        Some u \<Rightarrow> toString U (setHashEmpty U u)
      | None \<Rightarrow> s)"

record match_keys =
  full :: string
  noQuery :: string

definition normalizeForMatch :: "'u url_api \<Rightarrow> string \<Rightarrow> match_keys" where
  "normalizeForMatch U urlStr =
     (let normalized = normalizeUrlish U urlStr in
      case newURL U normalized of
        Some u \<Rightarrow> \<lparr> full = toString U u, noQuery = toString U (setSearchEmpty U u) \<rparr>
      | None \<Rightarrow> \<lparr> full = normalized, noQuery = normalized \<rparr>)"

definition reparses :: "'u url_api \<Rightarrow> 'u \<Rightarrow> bool" where
  \<comment> \<open>a property of one URL object that the re-normalisation of a result relies on: the
      platform parses its serialisation back to it, it has no fragment, and the
      serialisation has nothing to trim and no escaped slash\<close>
  "reparses U v =
     (newURL U (toString U v) = Some v
      \<and> toString U (setHashEmpty U v) = toString U v
      \<and> unescapeSlashes (trim (toString U v)) = toString U v)"

definition pathTail :: "'u url_api \<Rightarrow> string \<Rightarrow> string option" where
  "pathTail U urlStr =
     (case newURL U urlStr of
        Some u \<Rightarrow> lastOpt (filter truthy (splitOn CHR ''/'' [] (pathname U u)))
      | None \<Rightarrow> lastOpt (filter truthy (splitOn CHR ''/'' [] urlStr)))"

section \<open>Slug tokens and scoring\<close>

definition isLowerAlnum :: "char \<Rightarrow> bool" where
  \<comment> \<open>the class \<^verbatim>\<open>[a-z0-9]\<close>\<close>
  "isLowerAlnum c = (isLower c \<or> isDigit c)"

definition nonAlnumMatch :: "string \<Rightarrow> nat option" where
  \<comment> \<open>\<^verbatim>\<open>/[^a-z0-9]+/\<close> at the start of the string\<close>
  "nonAlnumMatch s =
     (let a = takeWhile (\<lambda>c. \<not> isLowerAlnum c) s in if a = [] then None else Some (length a))"

definition stopWords :: "string list" where
  "stopWords = [''golf'', ''of'', ''the'', ''and'', ''tour'', ''tours'', ''short'', ''break'',
                ''links'', ''experience'', ''test'']"

definition tokenizeSlug :: "string \<Rightarrow> string list" where
  "tokenizeSlug slug =
     (let cleaned = rev (dropWhile (\<lambda>c. c = CHR ''/'')
                      (rev (dropWhile (\<lambda>c. c = CHR ''/'') (trim slug))));
          lastSeg = (case lastOpt (filter truthy (splitOn CHR ''/'' [] cleaned)) of
                       None \<Rightarrow> [] | Some seg \<Rightarrow> seg);
          tokens = filter truthy (map trim (regexSplit nonAlnumMatch (toLowerCase lastSeg)))
      in filter (\<lambda>t. 3 \<le> length t \<and> t \<notin> set stopWords) tokens)"

record pageMedia =
  link :: string
  images :: "string list"
  mapIframe :: "string option"

datatype lang = NL | EN

fun langSegment :: "lang \<Rightarrow> string" where
  \<comment> \<open>the template \<^verbatim>\<open>`/${preferLang}/`\<close>\<close>
  "langSegment NL = ''/nl/''"
| "langSegment EN = ''/en/''"

definition scorePageForTokens :: "string \<Rightarrow> string list \<Rightarrow> lang \<Rightarrow> nat" where
  "scorePageForTokens pageLink tokens preferLang =
     (let linkLower = toLowerCase pageLink;
          score = (if includesStr linkLower (langSegment preferLang) then 3 else 0)
      in fold (\<lambda>token sc. if includesStr linkLower token then sc + 2 else sc) tokens score)"

fun bestLoop :: "string list \<Rightarrow> lang \<Rightarrow> pageMedia option \<times> nat \<Rightarrow> pageMedia list
                  \<Rightarrow> pageMedia option \<times> nat" where
  \<comment> \<open>the loop of \<^verbatim>\<open>bestTokenMatch\<close> over the pages, on the pair \<open>(best, bestScore)\<close>\<close>
  "bestLoop tokens preferLang (best, bestScore) [] = (best, bestScore)"
| "bestLoop tokens preferLang (best, bestScore) (p # ps) =
     (let score = scorePageForTokens (link p) tokens preferLang in
      if score > bestScore then bestLoop tokens preferLang (Some p, score) ps
      else bestLoop tokens preferLang (best, bestScore) ps)"

definition bestTokenMatch :: "pageMedia list \<Rightarrow> string list \<Rightarrow> lang \<Rightarrow> pageMedia option" where
  "bestTokenMatch pages tokens preferLang =
     (if tokens = [] then None
      else case bestLoop tokens preferLang (None, 0) pages of
             (best, bestScore) \<Rightarrow> if bestScore \<ge> 2 then best else None)"

definition preferBestMatch :: "pageMedia list \<Rightarrow> lang \<Rightarrow> pageMedia option" where
  \<comment> \<open>\<^verbatim>\<open>sort\<close> is stable; \<open>None\<close> is the \<^verbatim>\<open>undefined\<close> that \<^verbatim>\<open>[0]\<close> reads from an
      empty pool\<close>
  "preferBestMatch candidates preferLang =
     (let byLang = filter (\<lambda>c. includesStr (link c) (langSegment preferLang)) candidates;
          pool = (if byLang \<noteq> [] then byLang else candidates)
      in case sort_key (\<lambda>c. length (link c)) pool of
           [] \<Rightarrow> None
         | c # _ \<Rightarrow> Some c)"

definition deriveCandidatesFromOldUrl :: "'u url_api \<Rightarrow> string \<Rightarrow> string list" where
  "deriveCandidatesFromOldUrl U oldUrl =
     (let k = normalizeForMatch U oldUrl in
      uniq []
        ([full k, noQuery k]
         @ concat (map (\<lambda>u. [replaceFirst ''/nl/golfreis/'' ''/nl/'' u,
                             replaceFirst ''/en/golfreis/'' ''/en/'' u,
                             replaceFirst ''/golfreis/'' ''/'' u])
                     [full k, noQuery k])))"

section \<open>The two input documents\<close>

text \<open>
  A parsed JSON value. An object is the list of its own properties in enumeration order,
  each key once. The matcher never looks into a number.
\<close>

datatype json =
    JNull
  | JBool bool
  | JNum rat
  | JStr string
  | JArr "json list"
  | JObj "(string \<times> json) list"

type_synonym product = "(string \<times> json) list"

text \<open>
  The elements of the products array are objects (the source's type \<^verbatim>\<open>Product\<close>): a
  product is the property list of one. \<^verbatim>\<open>product.key\<close> is \<open>map_of product key\<close>, with
  \<open>None\<close> for \<^verbatim>\<open>undefined\<close>, and the assignment \<^verbatim>\<open>outProduct.key = v\<close> is
  \<^const>\<open>AList.update\<close>: an existing property keeps its place, a new one is appended.
\<close>

definition getProp :: "json \<Rightarrow> string \<Rightarrow> json option" where
  \<comment> \<open>\<^verbatim>\<open>p?.key\<close> on an element of the pages array; \<open>None\<close> stands for every value that
      is neither a string nor an array, which is all the caller distinguishes\<close>
  "getProp p key = (case p of JObj kvs \<Rightarrow> map_of kvs key | _ \<Rightarrow> None)"

fun stringsOf :: "json list \<Rightarrow> string list" where
  \<comment> \<open>\<^verbatim>\<open>.filter((x) => typeof x === 'string')\<close>\<close>
  "stringsOf [] = []"
| "stringsOf (JStr s # xs) = s # stringsOf xs"
| "stringsOf (_ # xs) = stringsOf xs"

fun loadPage :: "'u url_api \<Rightarrow> json \<Rightarrow> pageMedia option" where
  \<comment> \<open>one element of the pages array through the map, filter, map chain; \<open>None\<close> when
      the filter drops it\<close>
  "loadPage U p =
     (case (getProp p ''link'', getProp p ''images'') of
        (Some (JStr l), Some (JArr imgs)) \<Rightarrow>
          Some \<lparr> link = normalizeUrlish U l,
                 images = stringsOf imgs,
                 mapIframe = (case getProp p ''mapIframe'' of Some (JStr m) \<Rightarrow> Some m | _ \<Rightarrow> None) \<rparr>
      | _ \<Rightarrow> None)"

definition loadPages :: "'u url_api \<Rightarrow> json list \<Rightarrow> pageMedia list" where
  "loadPages U pagesJson = List.map_filter (loadPage U) pagesJson"

definition indexPage ::
  "'u url_api \<Rightarrow> (string \<rightharpoonup> pageMedia) \<Rightarrow> pageMedia \<Rightarrow> (string \<rightharpoonup> pageMedia)" where
  \<comment> \<open>the two \<^verbatim>\<open>byExact.set\<close> calls for one page: a later page overwrites an earlier
      one under the same key\<close>
  "indexPage U byExact p =
     (let k = normalizeForMatch U (link p)
      in (byExact(full k \<mapsto> p))(noQuery k \<mapsto> p))"

definition buildIndex :: "'u url_api \<Rightarrow> pageMedia list \<Rightarrow> (string \<rightharpoonup> pageMedia)" where
  \<comment> \<open>the map \<^verbatim>\<open>byExact\<close>\<close>
  "buildIndex U pages = foldl (indexPage U) Map.empty pages"

section \<open>The three tiers\<close>

fun firstHit :: "(string \<rightharpoonup> pageMedia) \<Rightarrow> string list \<Rightarrow> pageMedia option" where
  \<comment> \<open>the inner loop of tier 1 over the candidates of one legacy URL\<close>
  "firstHit byExact [] = None"
| "firstHit byExact (cand # cands) =
     (case byExact cand of Some hit \<Rightarrow> Some hit | None \<Rightarrow> firstHit byExact cands)"

fun tier1 :: "'u url_api \<Rightarrow> (string \<rightharpoonup> pageMedia) \<Rightarrow> string list \<Rightarrow> pageMedia option" where
  \<comment> \<open>the outer loop of tier 1 over the legacy URLs\<close>
  "tier1 U byExact [] = None"
| "tier1 U byExact (oldUrl # oldUrls) =
     (case firstHit byExact (deriveCandidatesFromOldUrl U oldUrl) of
        Some hit \<Rightarrow> Some hit
      | None \<Rightarrow> tier1 U byExact oldUrls)"

definition tailHits :: "pageMedia list \<Rightarrow> string \<Rightarrow> pageMedia list" where
  \<comment> \<open>the pages pushed for one tail \<open>t\<close>\<close>
  "tailHits pages t =
     filter (\<lambda>p. includesStr (link p) (''/'' @ t @ ''/'') \<or> endsWith (link p) (''/'' @ t)) pages"

fun scanTails :: "pageMedia list \<Rightarrow> pageMedia list \<Rightarrow> string list \<Rightarrow> pageMedia list" where
  \<comment> \<open>the loop over \<^verbatim>\<open>uniqTails\<close>; the second argument is \<^verbatim>\<open>candidates\<close>\<close>
  "scanTails pages candidates [] = candidates"
| "scanTails pages candidates (t # ts) =
     (let candidates' = candidates @ tailHits pages t in
      if candidates' \<noteq> [] then candidates' else scanTails pages candidates' ts)"

definition uniqTails :: "'u url_api \<Rightarrow> string list \<Rightarrow> string list" where
  "uniqTails U oldUrls =
     uniq [] (filter truthy (List.map_filter (pathTail U) oldUrls))"

definition tier2 :: "'u url_api \<Rightarrow> pageMedia list \<Rightarrow> string list \<Rightarrow> pageMedia option" where
  "tier2 U pages oldUrls =
     (let candidates = scanTails pages [] (uniqTails U oldUrls) in
      if candidates \<noteq> [] then preferBestMatch candidates NL else None)"

definition tier3 :: "pageMedia list \<Rightarrow> string \<Rightarrow> pageMedia option" where
  "tier3 pages slug =
     (let tokens = tokenizeSlug slug in
      case bestTokenMatch pages tokens NL of
        Some p \<Rightarrow> Some p
      | None \<Rightarrow> bestTokenMatch pages tokens EN)"

definition stringField :: "product \<Rightarrow> string \<Rightarrow> string" where
  \<comment> \<open>\<^verbatim>\<open>typeof product.key === 'string' ? product.key : ''\<close>\<close>
  "stringField product key = (case map_of product key of Some (JStr s) \<Rightarrow> s | _ \<Rightarrow> [])"

definition oldUrlsOf :: "product \<Rightarrow> string list" where
  "oldUrlsOf product =
     (let oldUrlsRaw = stringField product ''old_urls'' in
      if oldUrlsRaw \<noteq> [] then splitOldUrls oldUrlsRaw else [])"

definition findPageMatch ::
  "'u url_api \<Rightarrow> pageMedia list \<Rightarrow> (string \<rightharpoonup> pageMedia) \<Rightarrow> product \<Rightarrow> pageMedia option" where
  \<comment> \<open>the value of \<^verbatim>\<open>pageMatch\<close> after the three tiers\<close>
  "findPageMatch U pages byExact product =
     (let oldUrls = oldUrlsOf product;
          slug = stringField product ''slug'';
          m1 = tier1 U byExact oldUrls;
          m2 = (if m1 = None then tier2 U pages oldUrls else m1);
          m3 = (if m2 = None \<and> slug \<noteq> [] then tier3 pages slug else m2)
      in m3)"

section \<open>The run\<close>

record run_state =
  enriched :: "product list"
  matched :: nat
  unmatched :: nat
  errStream :: "string list"

definition diagnostic :: "string \<Rightarrow> string" where
  "diagnostic oldUrlsRaw = ''No media match for old_urls: '' @ oldUrlsRaw @ [CHR 0x0A]"

definition lineFeeds :: "string \<Rightarrow> nat" where
  \<comment> \<open>the number of lines that a text written to a stream ends\<close>
  "lineFeeds text = length (filter (\<lambda>c. c = CHR 0x0A) text)"

definition outProduct :: "pageMedia option \<Rightarrow> product \<Rightarrow> product" where
  \<comment> \<open>the object \<^verbatim>\<open>outProduct\<close> pushed to \<^verbatim>\<open>enriched\<close>: the spread copy of the product
      after the assignments of the branch taken\<close>
  "outProduct pageMatch product =
     (case pageMatch of
        Some pm \<Rightarrow>
          (let out1 = AList.update ''images'' (JArr (map JStr (images pm))) product
           in case mapIframe pm of
                Some m \<Rightarrow> if m \<noteq> [] then AList.update ''mapIframe'' (JStr m) out1 else out1
              | None \<Rightarrow> out1)
      | None \<Rightarrow> AList.update ''images'' (JArr []) product)"

definition processProduct ::
  "'u url_api \<Rightarrow> pageMedia list \<Rightarrow> (string \<rightharpoonup> pageMedia) \<Rightarrow> run_state \<Rightarrow> product \<Rightarrow> run_state" where
  \<comment> \<open>one iteration of the loop over \<^verbatim>\<open>toProcess\<close>\<close>
  "processProduct U pages byExact st product =
     (let oldUrlsRaw = stringField product ''old_urls'';
          pageMatch = findPageMatch U pages byExact product
      in case pageMatch of
           Some pm \<Rightarrow>
             st\<lparr> enriched := enriched st @ [outProduct pageMatch product],
                 matched := matched st + 1 \<rparr>
         | None \<Rightarrow>
             st\<lparr> enriched := enriched st @ [outProduct pageMatch product],
                 unmatched := unmatched st + 1,
                 errStream := errStream st
                    @ (if oldUrlsRaw \<noteq> [] then [diagnostic oldUrlsRaw] else []) \<rparr>)"

definition toInteger :: "rat \<Rightarrow> int" where
  \<comment> \<open>the conversion of a finite number to an index: the fraction is cut off\<close>
  "toInteger x = (if x < 0 then \<lceil>x\<rceil> else \<lfloor>x\<rfloor>)"

definition relIndex :: "nat \<Rightarrow> rat \<Rightarrow> nat" where
  \<comment> \<open>an index argument of \<^verbatim>\<open>slice\<close> on an array of length \<open>len\<close>: a negative one counts
      from the end\<close>
  "relIndex len x =
     (let r = toInteger x in
      if r < 0 then nat (max (int len + r) 0) else min (nat r) len)"

definition sliceFromTo :: "'a list \<Rightarrow> rat \<Rightarrow> rat \<Rightarrow> 'a list" where
  \<comment> \<open>\<^verbatim>\<open>xs.slice(from, to)\<close>\<close>
  "sliceFromTo xs from to =
     (let k = relIndex (length xs) from; final = relIndex (length xs) to
      in take (final - k) (drop k xs))"

definition sliceFrom :: "'a list \<Rightarrow> rat \<Rightarrow> 'a list" where
  \<comment> \<open>\<^verbatim>\<open>xs.slice(from)\<close>\<close>
  "sliceFrom xs from = drop (relIndex (length xs) from) xs"

record run_result =
  written :: "product list"
  summaryCount :: nat
  summaryMatched :: nat
  summaryUnmatched :: nat
  diagnostics :: "string list"

definition main ::
  "'u url_api \<Rightarrow> rat option \<Rightarrow> product list \<Rightarrow> json list \<Rightarrow> run_result" where
  \<comment> \<open>\<open>limit\<close> is the value of \<^verbatim>\<open>getArgInt(args, '--limit')\<close>, a finite number or
      \<^verbatim>\<open>undefined\<close>; \<open>products\<close> and \<open>pagesJson\<close> are the elements of the two arrays.
      Reading and parsing the files and the two \<^verbatim>\<open>Array.isArray\<close> checks come before
      and abort the run when they fail. \<open>written\<close> is the array handed to
      \<^verbatim>\<open>JSON.stringify\<close>, the three numbers are those of the summary line.\<close>
  "main U limit products pagesJson =
     (let pages = loadPages U pagesJson;
          byExact = buildIndex U pages;
          toProcess = (case limit of
                         Some l \<Rightarrow> sliceFromTo products 0 (max 0 l)
                       | None \<Rightarrow> products);
          st = foldl (processProduct U pages byExact)
                 \<lparr> enriched = [], matched = 0, unmatched = 0, errStream = [] \<rparr> toProcess;
          out = (case limit of
                   Some l \<Rightarrow> if l < of_nat (length products)
                             then enriched st @ sliceFrom products l else enriched st
                 | None \<Rightarrow> enriched st)
      in \<lparr> written = out, summaryCount = length out, summaryMatched = matched st,
           summaryUnmatched = unmatched st, diagnostics = errStream st \<rparr>)"

section \<open>Lemmas on strings and normalisation\<close>

lemma startsWith_includesStr: "startsWith s t \<Longrightarrow> includesStr s t"
  by (cases s) (auto simp: startsWith_def)

lemma replaceAll_absent: "\<not> includesStr s pat \<Longrightarrow> replaceAll pat rep s = s"
  by (induction pat rep s rule: replaceAll.induct) auto

lemma isSpace_slash: "\<not> isSpace CHR ''/''"
  by (simp add: isSpace_def)

lemma trim_Nil: "trim [] = []"
  by (simp add: trim_def)

lemma trim_fixed:
  assumes "\<not> isSpace (hd t)" and "\<not> isSpace (last t)"
  shows "trim t = t"
proof (cases "t = []")
  case True
  then show ?thesis by (simp add: trim_Nil)
next
  case False
  have 1: "dropWhile isSpace t = t"
    using assms(1) by (simp add: dropWhile_eq_self_iff)
  have "hd (rev t) = last t" using False by (simp add: hd_rev)
  then have 2: "dropWhile isSpace (rev t) = rev t"
    using assms(2) by (simp add: dropWhile_eq_self_iff)
  show ?thesis by (simp add: trim_def 1 2)
qed

lemma trim_ends:
  assumes "trim x \<noteq> []"
  shows "\<not> isSpace (hd (trim x)) \<and> \<not> isSpace (last (trim x))"
proof -
  let ?d = "dropWhile isSpace x"
  let ?r = "dropWhile isSpace (rev ?d)"
  have t: "trim x = rev ?r" by (simp add: trim_def)
  have rne: "?r \<noteq> []" using assms t by simp
  then have "\<not> isSpace (hd ?r)" by (rule hd_dropWhile)
  then have l: "\<not> isSpace (last (trim x))" using rne t by (simp add: last_rev)
  have dne: "?d \<noteq> []"
  proof
    assume "?d = []"
    then have "?r = []" by (metis dropWhile.simps(1) rev.simps(1))
    with rne show False by blast
  qed
  then have hd: "\<not> isSpace (hd ?d)" by (rule hd_dropWhile)
  have "rev ?d = takeWhile isSpace (rev ?d) @ ?r" by simp
  then have "?d = rev ?r @ rev (takeWhile isSpace (rev ?d))"
    by (metis rev_append rev_rev_ident)
  then have "hd ?d = hd (rev ?r)" using rne by (metis hd_append2 rev_is_Nil_conv)
  then show ?thesis using hd l t by simp
qed

lemma replaceAll_nonempty: "rep \<noteq> [] \<Longrightarrow> s \<noteq> [] \<Longrightarrow> replaceAll pat rep s \<noteq> []"
  by (cases s) auto

lemma unescape_hd:
  "t \<noteq> [] \<Longrightarrow> \<not> isSpace (hd t) \<Longrightarrow> \<not> isSpace (hd (unescapeSlashes t))"
  by (cases t) (auto simp: unescapeSlashes_def isSpace_slash)

lemma replaceAll_last:
  "s \<noteq> [] \<Longrightarrow> \<not> isSpace (last s) \<Longrightarrow> rep \<noteq> [] \<Longrightarrow> \<not> isSpace (last rep)
   \<Longrightarrow> \<not> isSpace (last (replaceAll pat rep s))"
proof (induction pat rep s rule: replaceAll.induct)
  case (1 pat rep)
  then show ?case by simp
next
  case (2 pat rep c s)
  show ?case
  proof (cases "pat \<noteq> [] \<and> startsWith (c # s) pat")
    case True
    let ?r = "drop (length pat) (c # s)"
    show ?thesis
    proof (cases "?r = []")
      case True
      with \<open>pat \<noteq> [] \<and> startsWith (c # s) pat\<close> 2 show ?thesis by simp
    next
      case False
      then have "last ?r = last (c # s)" by simp
      with 2 True False have "\<not> isSpace (last (replaceAll pat rep ?r))" by simp
      moreover have "replaceAll pat rep ?r \<noteq> []"
        using False 2 by (simp add: replaceAll_nonempty)
      ultimately show ?thesis using True by simp
    qed
  next
    case False
    then have eq: "replaceAll pat rep (c # s) = c # replaceAll pat rep s" by auto
    show ?thesis
    proof (cases "s = []")
      case True
      then show ?thesis using 2(4) eq by simp
    next
      case ne: False
      have "\<not> isSpace (last s)" using 2(4) ne by simp
      with 2 False ne have "\<not> isSpace (last (replaceAll pat rep s))"
        by simp
      moreover have "replaceAll pat rep s \<noteq> []"
        using ne 2 by (simp add: replaceAll_nonempty)
      ultimately show ?thesis using eq by simp
    qed
  qed
qed

lemma trim_unescape_trim: "trim (unescapeSlashes (trim x)) = unescapeSlashes (trim x)"
proof (cases "trim x = []")
  case True
  then show ?thesis by (simp add: unescapeSlashes_def trim_Nil)
next
  case False
  with trim_ends [of x] have h: "\<not> isSpace (hd (trim x))" and l: "\<not> isSpace (last (trim x))"
    by auto
  have "\<not> isSpace (hd (unescapeSlashes (trim x)))" using False h by (rule unescape_hd)
  moreover have "\<not> isSpace (last (unescapeSlashes (trim x)))"
    unfolding unescapeSlashes_def using False l by (simp add: replaceAll_last isSpace_slash)
  ultimately show ?thesis by (simp add: trim_fixed)
qed

lemma normalizeUrlish_unparsable:
  "newURL U (unescapeSlashes (trim input)) = None
   \<Longrightarrow> normalizeUrlish U input = unescapeSlashes (trim input)"
  by (simp add: normalizeUrlish_def)

lemma normalizeForMatch_of_unparsable:
  "newURL U (normalizeUrlish U input) = None
   \<Longrightarrow> normalizeForMatch U input
       = \<lparr> full = normalizeUrlish U input, noQuery = normalizeUrlish U input \<rparr>"
  by (simp add: normalizeForMatch_def Let_def)


lemma normalizeUrlish_fixed_unparsable:
  "newURL U n = None \<Longrightarrow> unescapeSlashes (trim n) = n \<Longrightarrow> normalizeUrlish U n = n"
  by (simp add: normalizeUrlish_def)

lemma normalizeForMatch_fixed_unparsable:
  "newURL U n = None \<Longrightarrow> unescapeSlashes (trim n) = n
   \<Longrightarrow> normalizeForMatch U n = \<lparr> full = n, noQuery = n \<rparr>"
  by (simp add: normalizeForMatch_def normalizeUrlish_fixed_unparsable)

lemma normalizeForMatch_of_parsable:
  "newURL U (normalizeUrlish U input) = Some v
   \<Longrightarrow> normalizeForMatch U input
       = \<lparr> full = toString U v, noQuery = toString U (setSearchEmpty U v) \<rparr>"
  by (simp add: normalizeForMatch_def)

lemma normalizeUrlish_reparses: "reparses U v \<Longrightarrow> normalizeUrlish U (toString U v) = toString U v"
  by (simp add: normalizeUrlish_def reparses_def)

lemma normalizeForMatch_reparses:
  assumes "reparses U v"
  shows "normalizeForMatch U (toString U v)
           = \<lparr> full = toString U v, noQuery = toString U (setSearchEmpty U v) \<rparr>"
proof -
  have "newURL U (normalizeUrlish U (toString U v)) = Some v"
    using assms by (simp add: normalizeUrlish_reparses) (simp add: reparses_def)
  then show ?thesis by (rule normalizeForMatch_of_parsable)
qed

section \<open>Lemmas on the split\<close>

lemma take_two_runs:
  "take (length (takeWhile P xs) + length (takeWhile Q (dropWhile P xs))) xs
     = takeWhile P xs @ takeWhile Q (dropWhile P xs)"
  by (simp only: take_add takeWhile_eq_take [symmetric] dropWhile_eq_drop [symmetric])

lemma sepRunThenSpace_Some:
  assumes "sepRunThenSpace r = Some n"
  shows "0 < n \<and> n \<le> length r \<and> (\<forall>c\<in>set (take n r). isSpace c \<or> isSepChar c)"
proof -
  let ?a = "takeWhile isSepChar r"
  let ?d = "dropWhile isSepChar r"
  let ?b = "takeWhile isSpace ?d"
  have d: "drop (length ?a) r = ?d" by (simp add: dropWhile_eq_drop)
  from assms have ne: "?a \<noteq> []" and n: "n = length ?a + length ?b"
    by (auto simp: sepRunThenSpace_def Let_def d split: if_splits)
  have t: "take n r = ?a @ ?b" unfolding n by (rule take_two_runs)
  have "length ?a + length ?d = length r"
    by (metis length_append takeWhile_dropWhile_id)
  moreover have "length ?b \<le> length ?d" by (rule length_takeWhile_le)
  ultimately have le: "n \<le> length r" using n by linarith
  have "\<forall>c\<in>set (take n r). isSpace c \<or> isSepChar c"
    unfolding t by (auto dest: set_takeWhileD)
  with ne n le show ?thesis by simp
qed

lemma backtrack_Some:
  "backtrack s k = Some n \<Longrightarrow> \<forall>c\<in>set (take k s). isSpace c \<Longrightarrow> k \<le> length s
   \<Longrightarrow> 0 < n \<and> n \<le> length s \<and> (\<forall>c\<in>set (take n s). isSpace c \<or> isSepChar c)"
proof (induction k)
  case 0
  then show ?case using sepRunThenSpace_Some [of s n] by simp
next
  case (Suc k)
  show ?case
  proof (cases "sepRunThenSpace (drop (Suc k) s)")
    case None
    with Suc.prems have "backtrack s k = Some n" by simp
    moreover have "\<forall>c\<in>set (take k s). isSpace c"
      using Suc.prems(2) set_take_subset_set_take [of k "Suc k" s] by auto
    ultimately show ?thesis using Suc.IH Suc.prems(3) by simp
  next
    case (Some m)
    with Suc.prems have n: "n = Suc k + m" by simp
    from sepRunThenSpace_Some [OF Some]
    have m: "0 < m" "m \<le> length (drop (Suc k) s)"
      "\<forall>c\<in>set (take m (drop (Suc k) s)). isSpace c \<or> isSepChar c" by simp_all
    have "take n s = take (Suc k) s @ take m (drop (Suc k) s)"
      unfolding n by (simp only: take_add)
    with m Suc.prems(2) have "\<forall>c\<in>set (take n s). isSpace c \<or> isSepChar c" by auto
    moreover have "n \<le> length s" using m(2) n Suc.prems(3) by simp
    ultimately show ?thesis using n by simp
  qed
qed

lemma sepMatch_Some:
  assumes "sepMatch s = Some n"
  shows "0 < n \<and> n \<le> length s \<and> (\<forall>c\<in>set (take n s). isSpace c \<or> isSepChar c)"
proof -
  let ?w = "length (takeWhile isSpace s)"
  have tw: "take ?w s = takeWhile isSpace s" by (simp add: takeWhile_eq_take [symmetric])
  have sp: "\<forall>c\<in>set (take ?w s). isSpace c" unfolding tw by (auto dest: set_takeWhileD)
  have wl: "?w \<le> length s" by (rule length_takeWhile_le)
  show ?thesis
  proof (cases "backtrack s ?w")
    case None
    with assms have "n = ?w" "2 \<le> ?w" by (auto simp: sepMatch_def Let_def split: if_splits)
    with sp wl show ?thesis by auto
  next
    case (Some m)
    with assms have "n = m" by (simp add: sepMatch_def Let_def)
    with backtrack_Some [OF Some sp wl] show ?thesis by simp
  qed
qed


lemma backtrack_falls_through: "sepRunThenSpace s \<noteq> None \<Longrightarrow> backtrack s k \<noteq> None"
  by (induction k) (auto split: option.splits)

lemma sepRunThenSpace_sep_head: "isSepChar c \<Longrightarrow> sepRunThenSpace (c # cs) \<noteq> None"
  by (simp add: sepRunThenSpace_def Let_def)

lemma sepMatch_None_head:
  assumes "sepMatch (c # cs) = None"
  shows "\<not> isSepChar c \<and> \<not> (isSpace c \<and> cs \<noteq> [] \<and> isSpace (hd cs))"
proof -
  have 1: "\<not> isSepChar c"
  proof
    assume "isSepChar c"
    then have "backtrack (c # cs) (length (takeWhile isSpace (c # cs))) \<noteq> None"
      by (intro backtrack_falls_through sepRunThenSpace_sep_head)
    with assms show False by (auto simp: sepMatch_def Let_def split: option.splits)
  qed
  have 2: "\<not> (isSpace c \<and> cs \<noteq> [] \<and> isSpace (hd cs))"
  proof
    assume a: "isSpace c \<and> cs \<noteq> [] \<and> isSpace (hd cs)"
    then obtain d ds where cs: "cs = d # ds" by (cases cs) auto
    with a have "2 \<le> length (takeWhile isSpace (c # cs))" by simp
    with assms show False by (auto simp: sepMatch_def Let_def split: option.splits if_splits)
  qed
  from 1 2 show ?thesis by simp
qed

lemma noDoubleSpace_append_left: "noDoubleSpace (xs @ ys) \<Longrightarrow> noDoubleSpace xs"
  by (induction xs rule: noDoubleSpace.induct) auto

lemma noDoubleSpace_append_right: "noDoubleSpace (xs @ ys) \<Longrightarrow> noDoubleSpace ys"
proof (induction xs)
  case Nil
  then show ?case by simp
next
  case (Cons x xs)
  then show ?case by (cases "xs @ ys") auto
qed

lemma noDoubleSpace_snoc:
  "noDoubleSpace (xs @ [c]) \<Longrightarrow> \<not> (isSpace c \<and> isSpace d) \<Longrightarrow> noDoubleSpace (xs @ [c, d])"
  by (induction xs rule: noDoubleSpace.induct) auto

lemma noDoubleSpace_trim: "noDoubleSpace f \<Longrightarrow> noDoubleSpace (trim f)"
proof -
  assume a: "noDoubleSpace f"
  let ?d = "dropWhile isSpace f"
  have "f = takeWhile isSpace f @ ?d" by simp
  with a have d: "noDoubleSpace ?d" by (metis noDoubleSpace_append_right)
  have "rev ?d = takeWhile isSpace (rev ?d) @ dropWhile isSpace (rev ?d)" by simp
  then have "?d = rev (dropWhile isSpace (rev ?d)) @ rev (takeWhile isSpace (rev ?d))"
    by (metis rev_append rev_rev_ident)
  with d have "noDoubleSpace (rev (dropWhile isSpace (rev ?d)))"
    by (metis noDoubleSpace_append_left)
  then show ?thesis by (simp add: trim_def)
qed

lemma trim_subset: "set (trim f) \<subseteq> set f"
proof -
  have "set (trim f) = set (dropWhile isSpace (rev (dropWhile isSpace f)))"
    by (simp add: trim_def)
  also have "\<dots> \<subseteq> set (rev (dropWhile isSpace f))" by (rule set_dropWhileD [THEN subsetI])
  also have "\<dots> \<subseteq> set f" by (auto dest: set_dropWhileD)
  finally show ?thesis .
qed

lemma trim_trim: "trim (trim f) = trim f"
proof (cases "trim f = []")
  case True
  then show ?thesis by (simp add: trim_Nil)
next
  case False
  from trim_ends [OF False] show ?thesis by (simp add: trim_fixed)
qed

lemma splitLoop_clean:
  "\<forall>c\<in>set cur. \<not> isSepChar c \<Longrightarrow> noDoubleSpace (cur @ take 1 rest)
   \<Longrightarrow> f \<in> set (splitLoop sepMatch cur rest)
   \<Longrightarrow> (\<forall>c\<in>set f. \<not> isSepChar c) \<and> noDoubleSpace f"
proof (induction sepMatch cur rest rule: splitLoop.induct)
  case (1 cur)
  then show ?case by simp
next
  case (2 cur c s)
  show ?case
  proof (cases "sepMatch (c # s)")
    case None
    from sepMatch_None_head [OF None]
    have h: "\<not> isSepChar c" "\<not> (isSpace c \<and> s \<noteq> [] \<and> isSpace (hd s))" by simp_all
    have a: "\<forall>x\<in>set (cur @ [c]). \<not> isSepChar x" using "2.prems"(1) h(1) by simp
    have b: "noDoubleSpace ((cur @ [c]) @ take 1 s)"
    proof (cases s)
      case Nil
      then show ?thesis using "2.prems"(2) by simp
    next
      case (Cons d ds)
      with h(2) have "\<not> (isSpace c \<and> isSpace d)" by simp
      with "2.prems"(2) have "noDoubleSpace (cur @ [c, d])" by (simp add: noDoubleSpace_snoc)
      with Cons show ?thesis by simp
    qed
    from "2.prems"(3) None have "f \<in> set (splitLoop sepMatch (cur @ [c]) s)" by simp
    from "2.hyps"(1) [OF None a b this] show ?thesis .
  next
    case (Some n)
    from sepMatch_Some [OF Some] have n: "0 < n" by simp
    with "2.prems"(3) Some
    have "f = cur \<or> f \<in> set (splitLoop sepMatch [] (drop n (c # s)))" by auto
    then show ?thesis
    proof
      assume "f = cur"
      with "2.prems"(1,2) show ?thesis by (auto dest: noDoubleSpace_append_left)
    next
      assume m: "f \<in> set (splitLoop sepMatch [] (drop n (c # s)))"
      have "\<not> (n = 0 \<and> cur = [])" using n by simp
      from "2.hyps"(3) [OF Some this _ _ m] show ?thesis
        by (cases "drop n (c # s)") auto
    qed
  qed
qed


lemma filter_drop_matched:
  assumes "\<forall>c\<in>set (take n xs). \<not> P c"
  shows "filter P (drop n xs) = filter P xs"
proof -
  have "filter P xs = filter P (take n xs @ drop n xs)" by simp
  also have "\<dots> = filter P (take n xs) @ filter P (drop n xs)" by (rule filter_append)
  also have "filter P (take n xs) = []" using assms by (simp add: filter_empty_conv)
  finally show ?thesis by simp
qed

lemma splitLoop_payload:
  "filter isPayloadChar (concat (splitLoop sepMatch cur rest)) = filter isPayloadChar (cur @ rest)"
proof (induction sepMatch cur rest rule: splitLoop.induct)
  case (1 cur)
  then show ?case by simp
next
  case (2 cur c s)
  show ?case
  proof (cases "sepMatch (c # s)")
    case None
    with "2.hyps"(1) show ?thesis by simp
  next
    case (Some n)
    from sepMatch_Some [OF Some]
    have n: "0 < n" and m: "\<forall>x\<in>set (take n (c # s)). \<not> isPayloadChar x"
      by (auto simp: isPayloadChar_def)
    have "\<not> (n = 0 \<and> cur = [])" using n by simp
    from "2.hyps"(3) [OF Some this]
    have "filter isPayloadChar (concat (splitLoop sepMatch [] (drop n (c # s))))
            = filter isPayloadChar (drop n (c # s))" by simp
    also have "\<dots> = filter isPayloadChar (c # s)" using m by (rule filter_drop_matched)
    finally show ?thesis using Some n by simp
  qed
qed

lemma filter_dropWhile_other:
  "(\<And>x. Q x \<Longrightarrow> \<not> P x) \<Longrightarrow> filter P (dropWhile Q xs) = filter P xs"
  by (induction xs) auto

lemma trim_payload: "filter isPayloadChar (trim f) = filter isPayloadChar f"
proof -
  have q: "\<And>x. isSpace x \<Longrightarrow> \<not> isPayloadChar x" by (simp add: isPayloadChar_def)
  have "filter isPayloadChar (trim f)
          = rev (filter isPayloadChar (dropWhile isSpace (rev (dropWhile isSpace f))))"
    by (simp add: trim_def rev_filter)
  also have "\<dots> = rev (filter isPayloadChar (rev (dropWhile isSpace f)))"
    using q by (simp add: filter_dropWhile_other [of isSpace isPayloadChar])
  also have "\<dots> = filter isPayloadChar (dropWhile isSpace f)" by (simp add: rev_filter)
  also have "\<dots> = filter isPayloadChar f" using q by (rule filter_dropWhile_other)
  finally show ?thesis .
qed

lemma fragments_payload:
  "filter isPayloadChar (concat (filter truthy (map trim fs))) = filter isPayloadChar (concat fs)"
proof (induction fs)
  case Nil
  then show ?case by simp
next
  case (Cons g fs)
  have "filter isPayloadChar g = filter isPayloadChar (trim g)" by (simp add: trim_payload)
  then have "filter isPayloadChar g = []" if "trim g = []" using that by simp
  with Cons show ?case by (auto simp: truthy_def trim_payload)
qed

lemma sepMatch_Nil: "sepMatch [] = None"
  by (simp add: sepMatch_def sepRunThenSpace_def)

lemma splitOldUrls_payload:
  "filter isPayloadChar (concat (splitOldUrls s)) = filter isPayloadChar s"
proof (cases "s = []")
  case True
  then show ?thesis
    by (simp add: splitOldUrls_def regexSplit_def sepMatch_Nil trim_Nil truthy_def)
next
  case False
  then show ?thesis
    using splitLoop_payload [of "[]" s]
    by (simp add: splitOldUrls_def regexSplit_def fragments_payload)
qed

lemma splitOldUrls_fragment:
  assumes "f \<in> set (splitOldUrls s)"
  shows "f \<noteq> [] \<and> trim f = f \<and> (\<forall>c\<in>set f. \<not> isSepChar c) \<and> noDoubleSpace f"
proof -
  from assms obtain g where g: "g \<in> set (regexSplit sepMatch s)" and f: "f = trim g" and ne: "f \<noteq> []"
    by (auto simp: splitOldUrls_def truthy_def)
  have "(\<forall>c\<in>set g. \<not> isSepChar c) \<and> noDoubleSpace g"
  proof (cases "s = []")
    case True
    with g show ?thesis by (simp add: regexSplit_def sepMatch_Nil)
  next
    case False
    with g have "g \<in> set (splitLoop sepMatch [] s)" by (simp add: regexSplit_def)
    then show ?thesis
      using splitLoop_clean [of "[]" s g] by (cases s) auto
  qed
  then have "(\<forall>c\<in>set f. \<not> isSepChar c) \<and> noDoubleSpace f"
    unfolding f using trim_subset [of g] by (auto intro: noDoubleSpace_trim)
  with ne f show ?thesis by (simp add: trim_trim)
qed

lemma sepRunThenSpace_no_sep:
  "\<forall>c\<in>set s. \<not> isSepChar c \<Longrightarrow> sepRunThenSpace (drop k s) = None"
proof -
  assume a: "\<forall>c\<in>set s. \<not> isSepChar c"
  have "takeWhile isSepChar (drop k s) = []"
  proof (cases "drop k s")
    case Nil
    then show ?thesis by simp
  next
    case (Cons x xs)
    then have "x \<in> set (drop k s)" by simp
    then have "x \<in> set s" by (rule in_set_dropD)
    with a Cons show ?thesis by simp
  qed
  then show ?thesis by (simp add: sepRunThenSpace_def)
qed

lemma backtrack_no_sep: "\<forall>c\<in>set s. \<not> isSepChar c \<Longrightarrow> backtrack s k = None"
proof (induction k)
  case 0
  then show ?case using sepRunThenSpace_no_sep [of s 0] by simp
next
  case (Suc k)
  then show ?case using sepRunThenSpace_no_sep [of s "Suc k"] by simp
qed

lemma noDoubleSpace_run: "noDoubleSpace s \<Longrightarrow> length (takeWhile isSpace s) < 2"
  by (cases s rule: noDoubleSpace.cases) auto

lemma sepMatch_no_sep:
  "\<forall>c\<in>set s. \<not> isSepChar c \<Longrightarrow> noDoubleSpace s \<Longrightarrow> sepMatch s = None"
  using noDoubleSpace_run [of s] by (simp add: sepMatch_def backtrack_no_sep)

lemma splitLoop_no_sep:
  "\<forall>c\<in>set rest. \<not> isSepChar c \<Longrightarrow> noDoubleSpace rest
   \<Longrightarrow> splitLoop sepMatch cur rest = [cur @ rest]"
proof (induction rest arbitrary: cur)
  case Nil
  then show ?case by simp
next
  case (Cons c rest)
  have "sepMatch (c # rest) = None" using Cons.prems by (rule sepMatch_no_sep)
  moreover have "noDoubleSpace rest"
    using Cons.prems(2) noDoubleSpace_append_right [of "[c]" rest] by simp
  ultimately show ?case using Cons.IH [of "cur @ [c]"] Cons.prems(1) by simp
qed

lemma splitOldUrls_no_sep:
  assumes "\<forall>c\<in>set s. \<not> isSepChar c" and "noDoubleSpace s" and "trim s \<noteq> []"
  shows "splitOldUrls s = [trim s]"
proof -
  have "s \<noteq> []" using assms(3) by (auto simp: trim_Nil)
  then have "regexSplit sepMatch s = [s]"
    using splitLoop_no_sep [OF assms(1,2), of "[]"] by (simp add: regexSplit_def)
  then show ?thesis using assms(3) by (simp add: splitOldUrls_def truthy_def)
qed

lemma isSeparator_nonempty: "isSeparator r \<Longrightarrow> r \<noteq> []"
  by (auto simp: isSeparator_def)

lemma drop_two_runs:
  "drop (length (takeWhile P xs) + length (takeWhile Q (dropWhile P xs))) xs
     = dropWhile Q (dropWhile P xs)"
proof -
  have "drop (length (takeWhile Q (dropWhile P xs)) + length (takeWhile P xs)) xs
          = drop (length (takeWhile Q (dropWhile P xs))) (drop (length (takeWhile P xs)) xs)"
    by (simp only: drop_drop)
  also have "\<dots> = dropWhile Q (dropWhile P xs)"
    by (simp only: dropWhile_eq_drop [symmetric])
  finally show ?thesis by (simp only: add.commute)
qed

lemma sepRunThenSpace_shape:
  assumes "sepRunThenSpace r = Some n"
  shows "(\<exists>x\<in>set (take n r). isSepChar x) \<and> (drop n r = [] \<or> \<not> isSpace (hd (drop n r)))"
proof -
  let ?a = "takeWhile isSepChar r"
  let ?d = "dropWhile isSepChar r"
  let ?b = "takeWhile isSpace ?d"
  have d: "drop (length ?a) r = ?d" by (simp add: dropWhile_eq_drop)
  from assms have ne: "?a \<noteq> []" and n: "n = length ?a + length ?b"
    by (auto simp: sepRunThenSpace_def Let_def d split: if_splits)
  have t: "take n r = ?a @ ?b" unfolding n by (rule take_two_runs)
  have "hd ?a \<in> set ?a" using ne by simp
  moreover from this have "isSepChar (hd ?a)" by (rule set_takeWhileD [THEN conjunct2])
  ultimately have 1: "\<exists>x\<in>set (take n r). isSepChar x" unfolding t by auto
  have dr: "drop n r = dropWhile isSpace ?d" unfolding n by (rule drop_two_runs)
  have 2: "drop n r = [] \<or> \<not> isSpace (hd (drop n r))"
    unfolding dr by (metis hd_dropWhile)
  from 1 2 show ?thesis by simp
qed

lemma backtrack_shape:
  "backtrack s k = Some n
   \<Longrightarrow> (\<exists>x\<in>set (take n s). isSepChar x) \<and> (drop n s = [] \<or> \<not> isSpace (hd (drop n s)))"
proof (induction k)
  case 0
  then show ?case using sepRunThenSpace_shape [of s n] by simp
next
  case (Suc k)
  show ?case
  proof (cases "sepRunThenSpace (drop (Suc k) s)")
    case None
    with Suc show ?thesis by simp
  next
    case (Some m)
    with Suc.prems have n: "n = Suc k + m" by simp
    from sepRunThenSpace_shape [OF Some]
    obtain x where x: "x \<in> set (take m (drop (Suc k) s))" "isSepChar x"
      and nx: "drop m (drop (Suc k) s) = [] \<or> \<not> isSpace (hd (drop m (drop (Suc k) s)))"
      by blast
    have "take n s = take (Suc k) s @ take m (drop (Suc k) s)"
      unfolding n by (simp only: take_add)
    with x have 1: "\<exists>x\<in>set (take n s). isSepChar x" by auto
    have "drop n s = drop m (drop (Suc k) s)" unfolding n by (simp add: add.commute)
    with nx have 2: "drop n s = [] \<or> \<not> isSpace (hd (drop n s))" by simp
    from 1 2 show ?thesis by simp
  qed
qed

lemma sepMatch_shape:
  assumes "sepMatch s = Some n"
  shows "((\<exists>x\<in>set (take n s). isSepChar x) \<or> (2 \<le> n \<and> (\<forall>x\<in>set (take n s). isSpace x)))
         \<and> (drop n s = [] \<or> \<not> isSpace (hd (drop n s)))"
proof -
  let ?w = "length (takeWhile isSpace s)"
  show ?thesis
  proof (cases "backtrack s ?w")
    case None
    with assms have n: "n = ?w" "2 \<le> ?w" by (auto simp: sepMatch_def Let_def split: if_splits)
    have tw: "take ?w s = takeWhile isSpace s" by (simp add: takeWhile_eq_take [symmetric])
    have dw: "drop ?w s = dropWhile isSpace s" by (simp add: dropWhile_eq_drop [symmetric])
    have "\<forall>x\<in>set (take n s). isSpace x" unfolding n tw by (auto dest: set_takeWhileD)
    moreover have "drop n s = [] \<or> \<not> isSpace (hd (drop n s))"
      unfolding n dw by (metis hd_dropWhile)
    ultimately show ?thesis using n by simp
  next
    case (Some m)
    with assms have "n = m" by (simp add: sepMatch_def Let_def)
    with backtrack_shape [OF Some] show ?thesis by simp
  qed
qed


lemma take_le_takeWhile:
  "\<forall>x\<in>set (take n xs). P x \<Longrightarrow> n \<le> length xs \<Longrightarrow> n \<le> length (takeWhile P xs)"
proof (induction xs arbitrary: n)
  case Nil
  then show ?case by simp
next
  case (Cons a xs)
  then show ?case by (cases n) auto
qed

lemma take_prefix: "n \<le> length r \<Longrightarrow> take n (r @ t) = take n r"
  by simp

lemma drop_prefix: "n \<le> length r \<Longrightarrow> drop n (r @ t) = drop n r @ t"
  by simp

lemma takeWhile_dropWhile_Nil: "takeWhile P (dropWhile P xs) = []"
  by (induction xs) auto

lemma takeWhile_drop_run:
  assumes "n \<le> length (takeWhile P xs)"
  shows "takeWhile P (drop n xs) = drop n (takeWhile P xs)"
proof -
  let ?r = "takeWhile P xs" and ?t = "dropWhile P xs"
  have "drop n (?r @ ?t) = drop n ?r @ ?t" using assms by (rule drop_prefix)
  then have d: "drop n xs = drop n ?r @ ?t" by (simp only: takeWhile_dropWhile_id)
  have "\<forall>x\<in>set (drop n ?r). P x" by (auto dest: in_set_dropD set_takeWhileD)
  then have "takeWhile P (drop n ?r @ ?t) = drop n ?r @ takeWhile P ?t"
    by (simp add: takeWhile_append2)
  also have "takeWhile P ?t = []" by (rule takeWhile_dropWhile_Nil)
  finally show ?thesis unfolding d by simp
qed

lemma run_chars: "\<forall>x\<in>set (takeWhile (\<lambda>x. \<not> isPayloadChar x) s). isSpace x \<or> isSepChar x"
  by (auto dest: set_takeWhileD simp: isPayloadChar_def)

lemma isSeparator_run:
  assumes "\<forall>x\<in>set r. isSpace x \<or> isSepChar x"
  shows "isSeparator r \<longleftrightarrow> (\<exists>x\<in>set r. isSepChar x) \<or> 2 \<le> length r"
proof -
  have a: "list_all (\<lambda>c. \<not> isPayloadChar c) r"
    using assms by (auto simp: list_all_iff isPayloadChar_def)
  show ?thesis
  proof (cases "\<exists>x\<in>set r. isSepChar x")
    case True
    then show ?thesis using a by (auto simp: isSeparator_def list_ex_iff)
  next
    case False
    with assms have "list_all isSpace r" by (auto simp: list_all_iff)
    with False show ?thesis by (auto simp: isSeparator_def list_ex_iff)
  qed
qed

lemma sepMatch_in_run:
  assumes "sepMatch s = Some n"
  shows "0 < n \<and> n \<le> length (takeWhile (\<lambda>x. \<not> isPayloadChar x) s)
         \<and> isSeparator (takeWhile (\<lambda>x. \<not> isPayloadChar x) s)"
proof -
  let ?P = "\<lambda>x. \<not> isPayloadChar x"
  let ?run = "takeWhile ?P s"
  from sepMatch_Some [OF assms]
  have n: "0 < n" "n \<le> length s" and all: "\<forall>c\<in>set (take n s). ?P c"
    by (auto simp: isPayloadChar_def)
  from take_le_takeWhile [OF all n(2)] have le: "n \<le> length ?run" .
  have "take n (?run @ dropWhile ?P s) = take n ?run" using le by (rule take_prefix)
  then have tk: "take n s = take n ?run" by (simp only: takeWhile_dropWhile_id)
  from sepMatch_shape [OF assms]
  have "(\<exists>x\<in>set (take n ?run). isSepChar x) \<or> 2 \<le> n" unfolding tk by blast
  then have "(\<exists>x\<in>set ?run. isSepChar x) \<or> 2 \<le> length ?run"
    using le by (auto dest: in_set_takeD)
  then have "isSeparator ?run" using isSeparator_run [OF run_chars, of s] by simp
  with n le show ?thesis by simp
qed

lemma backtrack_reaches:
  "isSepChar x \<Longrightarrow> length pre \<le> k \<Longrightarrow> backtrack (pre @ x # r) k \<noteq> None"
proof (induction k)
  case 0
  then show ?case by (simp add: sepRunThenSpace_sep_head)
next
  case (Suc k)
  show ?case
  proof (cases "length pre \<le> k")
    case True
    with Suc show ?thesis by (auto split: option.splits)
  next
    case False
    with Suc.prems have "length pre = Suc k" by simp
    then have "drop (Suc k) (pre @ x # r) = x # r" by simp
    then have "sepRunThenSpace (drop (Suc k) (pre @ x # r)) \<noteq> None"
      using Suc.prems(1) by (simp add: sepRunThenSpace_sep_head)
    then show ?thesis by (auto split: option.splits)
  qed
qed

lemma sepMatch_at_separator:
  assumes "isSeparator (takeWhile (\<lambda>x. \<not> isPayloadChar x) s)"
  shows "sepMatch s \<noteq> None"
proof -
  let ?P = "\<lambda>x. \<not> isPayloadChar x"
  let ?run = "takeWhile ?P s"
  let ?w = "length (takeWhile isSpace s)"
  from assms isSeparator_run [OF run_chars, of s]
  have sep: "(\<exists>x\<in>set ?run. isSepChar x) \<or> 2 \<le> length ?run" by simp
  show ?thesis
  proof (cases "\<exists>x\<in>set ?run. isSepChar x")
    case True
    from split_list_first_prop [OF True]
    obtain pre x post where run: "?run = pre @ x # post" and x: "isSepChar x"
      and pre: "\<forall>y\<in>set pre. \<not> isSepChar y" by blast
    have "\<forall>y\<in>set pre. isSpace y"
    proof
      fix y assume y: "y \<in> set pre"
      then have "y \<in> set ?run" by (simp add: run)
      with run_chars [of s] have "isSpace y \<or> isSepChar y" by blast
      with pre y show "isSpace y" by blast
    qed
    moreover have s: "s = pre @ x # (post @ dropWhile ?P s)"
      using run by (metis append.assoc append_Cons takeWhile_dropWhile_id)
    ultimately have "takeWhile isSpace s = pre @ takeWhile isSpace (x # (post @ dropWhile ?P s))"
      by (metis takeWhile_append2)
    then have "length pre \<le> ?w" by simp
    from backtrack_reaches [OF x this, of "post @ dropWhile ?P s"] s
    have "backtrack s ?w \<noteq> None" by simp
    then show ?thesis by (auto simp: sepMatch_def Let_def split: option.splits)
  next
    case False
    with sep have two: "2 \<le> length ?run" by simp
    from False run_chars [of s] have "\<forall>x\<in>set ?run. isSpace x" by blast
    moreover have "take (length ?run) s = ?run" by (simp add: takeWhile_eq_take [symmetric])
    ultimately have "\<forall>x\<in>set (take (length ?run) s). isSpace x" by simp
    moreover have "length ?run \<le> length s" by (rule length_takeWhile_le)
    ultimately have "length ?run \<le> ?w" by (rule take_le_takeWhile)
    with two have "2 \<le> ?w" by simp
    then show ?thesis by (auto simp: sepMatch_def Let_def split: option.splits)
  qed
qed


lemma hd_takeWhile_nonempty: "takeWhile P t \<noteq> [] \<Longrightarrow> hd (takeWhile P t) = hd t"
  by (cases t) (auto split: if_splits)

lemma splitRuns_at_separator:
  assumes "isSeparator (takeWhile (\<lambda>x. \<not> isPayloadChar x) t)"
  shows "splitRuns cur t
           = cur # splitRuns [] (drop (length (takeWhile (\<lambda>x. \<not> isPayloadChar x) t)) t)"
proof (cases t)
  case Nil
  with assms show ?thesis by (simp add: isSeparator_def)
next
  case (Cons a t')
  with assms show ?thesis by (simp add: Let_def)
qed

lemma splitRuns_rest_of_run:
  assumes le: "n \<le> length (takeWhile (\<lambda>x. \<not> isPayloadChar x) s)"
    and nx: "drop n s = [] \<or> \<not> isSpace (hd (drop n s))"
  shows "filter truthy (map trim (splitRuns [] (drop n s)))
           = filter truthy (map trim
               (splitRuns [] (drop (length (takeWhile (\<lambda>x. \<not> isPayloadChar x) s)) s)))"
proof (cases "n = length (takeWhile (\<lambda>x. \<not> isPayloadChar x) s)")
  case True
  then show ?thesis by simp
next
  case False
  let ?P = "\<lambda>x. \<not> isPayloadChar x"
  let ?run = "takeWhile ?P s"
  let ?t = "drop n s"
  from False le have lt: "n < length ?run" by simp
  have tw: "takeWhile ?P ?t = drop n ?run" using le by (rule takeWhile_drop_run)
  have ne: "drop n ?run \<noteq> []" using lt by simp
  have chars: "\<forall>x\<in>set (drop n ?run). isSpace x \<or> isSepChar x"
    using run_chars [of s] by (auto dest: in_set_dropD)
  have "?t \<noteq> []" using lt length_takeWhile_le [of ?P s] by simp
  with nx have nsp: "\<not> isSpace (hd ?t)" by simp
  have "takeWhile ?P ?t \<noteq> []" using ne by (simp only: tw not_False_eq_True)
  then have "hd (takeWhile ?P ?t) = hd ?t" by (rule hd_takeWhile_nonempty)
  then have hd: "hd ?t = hd (drop n ?run)" by (simp only: tw)
  have "hd (drop n ?run) \<in> set (drop n ?run)" using ne by simp
  with chars nsp hd have "\<exists>x\<in>set (drop n ?run). isSepChar x" by metis
  then have "isSeparator (drop n ?run)" using isSeparator_run [OF chars] by simp
  then have "isSeparator (takeWhile ?P ?t)" by (simp only: tw)
  from splitRuns_at_separator [OF this, of "[]"]
  have "splitRuns [] ?t = [] # splitRuns [] (drop (length (drop n ?run)) ?t)"
    by (simp only: tw)
  also have "drop (length (drop n ?run)) ?t = drop (length ?run) s"
    using le by simp
  finally show ?thesis by (simp add: trim_Nil truthy_def)
qed

lemma splitLoop_refines_runs:
  "filter truthy (map trim (splitLoop sepMatch cur rest))
     = filter truthy (map trim (splitRuns cur rest))"
proof (induction rest arbitrary: cur rule: length_induct)
  case (1 rest)
  let ?P = "\<lambda>x. \<not> isPayloadChar x"
  let ?run = "takeWhile ?P rest"
  show ?case
  proof (cases rest)
    case Nil
    then show ?thesis by simp
  next
    case (Cons c s)
    show ?thesis
    proof (cases "isSeparator ?run")
      case True
      from sepMatch_at_separator [OF True] obtain n where m: "sepMatch rest = Some n" by auto
      from sepMatch_in_run [OF m] have n: "0 < n" "n \<le> length ?run" by simp_all
      from sepMatch_shape [OF m]
      have nx: "drop n rest = [] \<or> \<not> isSpace (hd (drop n rest))" by simp
      have a: "splitLoop sepMatch cur rest = cur # splitLoop sepMatch [] (drop n rest)"
        using m n(1) Cons by simp
      have b: "splitRuns cur rest = cur # splitRuns [] (drop (length ?run) rest)"
        using True by (rule splitRuns_at_separator)
      have "length (drop n rest) < length rest" using n(1) Cons by simp
      with 1 have "filter truthy (map trim (splitLoop sepMatch [] (drop n rest)))
                     = filter truthy (map trim (splitRuns [] (drop n rest)))"
        by blast
      also have "\<dots> = filter truthy (map trim (splitRuns [] (drop (length ?run) rest)))"
        using n(2) nx by (rule splitRuns_rest_of_run)
      finally show ?thesis by (simp only: a b list.map filter.simps)
    next
      case False
      have m: "sepMatch rest = None"
      proof (cases "sepMatch rest")
        case None
        then show ?thesis .
      next
        case (Some n)
        from sepMatch_in_run [OF Some] False show ?thesis by simp
      qed
      have a: "splitLoop sepMatch cur rest = splitLoop sepMatch (cur @ [c]) s"
        using m Cons by simp
      have b: "splitRuns cur rest = splitRuns (cur @ [c]) s"
        using False Cons by (simp add: Let_def)
      have "length s < length rest" using Cons by simp
      with 1 have "filter truthy (map trim (splitLoop sepMatch (cur @ [c]) s))
                     = filter truthy (map trim (splitRuns (cur @ [c]) s))"
        by blast
      then show ?thesis by (simp only: a b)
    qed
  qed
qed

lemma splitOldUrls_refines: "splitOldUrls s = splitOldUrlsSpec s"
proof (cases "s = []")
  case True
  then show ?thesis
    by (simp add: splitOldUrls_def splitOldUrlsSpec_def regexSplit_def sepMatch_Nil)
next
  case False
  then show ?thesis
    by (simp add: splitOldUrls_def splitOldUrlsSpec_def regexSplit_def splitLoop_refines_runs)
qed


lemma trim_leading_space: "isSpace w \<Longrightarrow> trim (w # p) = trim p"
  by (simp add: trim_def)

lemma dropWhile_all: "\<forall>x\<in>set xs. P x \<Longrightarrow> dropWhile P xs = []"
  by (induction xs) auto

lemma trim_trailing_space:
  assumes "isSpace w"
  shows "trim (p @ [w]) = trim p"
proof (cases "\<forall>x\<in>set p. isSpace x")
  case True
  then have "\<forall>x\<in>set (p @ [w]). isSpace x" using assms by simp
  then have "dropWhile isSpace (p @ [w]) = []" by (rule dropWhile_all)
  moreover have "dropWhile isSpace p = []" using True by (rule dropWhile_all)
  ultimately show ?thesis by (simp only: trim_def rev.simps dropWhile.simps)
next
  case False
  then obtain x where "x \<in> set p" "\<not> isSpace x" by blast
  then have "dropWhile isSpace (p @ [w]) = dropWhile isSpace p @ [w]"
    by (rule dropWhile_append1)
  then show ?thesis using assms by (simp add: trim_def)
qed

lemma splitRuns_first_piece:
  "splitRuns (pre @ cur) rest = (pre @ hd (splitRuns cur rest)) # tl (splitRuns cur rest)"
proof (induction cur rest rule: splitRuns.induct)
  case (1 cur)
  then show ?case by simp
next
  case (2 cur c s)
  show ?case
  proof (cases "isSeparator (takeWhile (\<lambda>x. \<not> isPayloadChar x) (c # s))")
    case True
    then show ?thesis by (simp add: Let_def)
  next
    case False
    with 2(2) [OF refl False] show ?thesis by (simp add: Let_def)
  qed
qed

lemma splitRuns_nonempty: "splitRuns cur rest \<noteq> []"
  by (induction cur rest rule: splitRuns.induct) (auto simp: Let_def)

lemma splitRuns_leading_space:
  assumes "isSpace w"
  shows "filter truthy (map trim (splitRuns [w] rest)) = filter truthy (map trim (splitRuns [] rest))"
proof -
  have "splitRuns ([w] @ []) rest = ([w] @ hd (splitRuns [] rest)) # tl (splitRuns [] rest)"
    by (rule splitRuns_first_piece)
  moreover have "splitRuns [] rest \<noteq> []" by (rule splitRuns_nonempty)
  then have "splitRuns [] rest = hd (splitRuns [] rest) # tl (splitRuns [] rest)" by simp
  ultimately show ?thesis
    using assms trim_leading_space [of w "hd (splitRuns [] rest)"]
    by (metis append_Cons append_Nil list.simps(9))
qed

lemma short_run:
  assumes "\<not> isSeparator (takeWhile (\<lambda>x. \<not> isPayloadChar x) t)"
    and "takeWhile (\<lambda>x. \<not> isPayloadChar x) t \<noteq> []"
  shows "\<exists>w. takeWhile (\<lambda>x. \<not> isPayloadChar x) t = [w] \<and> isSpace w"
proof -
  let ?run = "takeWhile (\<lambda>x. \<not> isPayloadChar x) t"
  from assms(1) isSeparator_run [OF run_chars, of t]
  have 1: "\<forall>x\<in>set ?run. \<not> isSepChar x" and 2: "length ?run < 2" by auto
  from 2 assms(2) obtain w where w: "?run = [w]" by (cases ?run) auto
  with 1 run_chars [of t] have "isSpace w" by auto
  with w show ?thesis by simp
qed

lemma splitRuns_skip_leading_run:
  "filter truthy (map trim (splitRuns [] b))
     = filter truthy (map trim (splitRuns [] (dropWhile (\<lambda>x. \<not> isPayloadChar x) b)))"
proof -
  let ?P = "\<lambda>x. \<not> isPayloadChar x"
  let ?run = "takeWhile ?P b"
  have dr: "drop (length ?run) b = dropWhile ?P b" by (simp add: dropWhile_eq_drop [symmetric])
  show ?thesis
  proof (cases "?run = []")
    case True
    then have "dropWhile ?P b = b" by (metis append_Nil takeWhile_dropWhile_id)
    then show ?thesis by simp
  next
    case ne: False
    show ?thesis
    proof (cases "isSeparator ?run")
      case True
      from splitRuns_at_separator [OF True, of "[]"] show ?thesis
        by (simp add: dr trim_Nil truthy_def)
    next
      case False
      from short_run [OF False ne] obtain w where w: "?run = [w]" "isSpace w" by blast
      define d where "d = dropWhile ?P b"
      have "?run @ d = b" unfolding d_def by simp
      then have b: "w # d = b" by (simp only: w append_Cons append_Nil)
      have "\<not> isSeparator (takeWhile ?P (w # d))" unfolding b by (rule False)
      then have "splitRuns [] (w # d) = splitRuns [w] d" by (simp add: Let_def)
      then have "splitRuns [] b = splitRuns [w] d" by (simp only: b)
      then show ?thesis using splitRuns_leading_space [OF w(2), of d] by (simp add: d_def)
    qed
  qed
qed


lemma isSeparator_chars: "isSeparator sep \<Longrightarrow> \<forall>x\<in>set sep. \<not> isPayloadChar x"
  by (auto simp: isSeparator_def list_all_iff isPayloadChar_def)

lemma isSeparator_extend:
  assumes "isSeparator sep"
    and "\<forall>x\<in>set l. \<not> isPayloadChar x" and "\<forall>x\<in>set r. \<not> isPayloadChar x"
  shows "isSeparator (l @ sep @ r)"
proof -
  have c: "\<forall>x\<in>set sep. isSpace x \<or> isSepChar x"
    using isSeparator_chars [OF assms(1)] by (simp add: isPayloadChar_def)
  have "\<forall>x\<in>set (l @ sep @ r). isSpace x \<or> isSepChar x"
    using c assms(2,3) by (auto simp: isPayloadChar_def)
  moreover have "(\<exists>x\<in>set sep. isSepChar x) \<or> 2 \<le> length sep"
    using assms(1) isSeparator_run [OF c] by simp
  then have "(\<exists>x\<in>set (l @ sep @ r). isSepChar x) \<or> 2 \<le> length (l @ sep @ r)" by auto
  ultimately show ?thesis by (simp only: isSeparator_run)
qed

lemma splitRuns_all_run:
  assumes "\<forall>x\<in>set a. \<not> isPayloadChar x"
  shows "filter truthy (map trim (splitRuns cur a)) = filter truthy (map trim [cur])"
proof (cases "a = []")
  case True
  then show ?thesis by simp
next
  case ne: False
  let ?P = "\<lambda>x. \<not> isPayloadChar x"
  have tw: "takeWhile ?P a = a" using assms by (simp add: takeWhile_eq_all_conv)
  show ?thesis
  proof (cases "isSeparator a")
    case True
    then have "isSeparator (takeWhile ?P a)" by (simp only: tw)
    from splitRuns_at_separator [OF this, of cur] show ?thesis
      by (simp add: tw trim_Nil truthy_def)
  next
    case False
    have "\<not> isSeparator (takeWhile ?P a)" unfolding tw by (rule False)
    from short_run [OF this] ne obtain w where w: "a = [w]" "isSpace w" by (auto simp: tw)
    have "splitRuns cur [w] = [cur @ [w]]"
      using False w by (simp add: Let_def isPayloadChar_def)
    then show ?thesis using w trim_trailing_space [of w cur] by simp
  qed
qed

lemma splitRuns_inserted_separator:
  assumes sep: "isSeparator sep"
  shows "filter truthy (map trim (splitRuns cur (a @ sep @ b)))
           = filter truthy (map trim (splitRuns cur a)) @ filter truthy (map trim (splitRuns [] b))"
proof (induction a arbitrary: cur rule: length_induct)
  case (1 a)
  let ?P = "\<lambda>x. \<not> isPayloadChar x"
  show ?case
  proof (cases "\<forall>x\<in>set a. ?P x")
    case True
    let ?run = "takeWhile ?P (a @ sep @ b)"
    have "\<forall>x\<in>set (a @ sep). ?P x" using True isSeparator_chars [OF sep] by auto
    then have "takeWhile ?P ((a @ sep) @ b) = (a @ sep) @ takeWhile ?P b"
      by (simp add: takeWhile_append2)
    then have run: "?run = a @ sep @ takeWhile ?P b" by simp
    have "isSeparator (a @ sep @ takeWhile ?P b)"
      using sep True by (rule isSeparator_extend) (auto dest: set_takeWhileD)
    then have "isSeparator ?run" by (simp only: run)
    from splitRuns_at_separator [OF this, of cur]
    have "splitRuns cur (a @ sep @ b) = cur # splitRuns [] (drop (length ?run) (a @ sep @ b))" .
    also have "drop (length ?run) (a @ sep @ b) = dropWhile ?P (a @ sep @ b)"
      by (simp only: dropWhile_eq_drop [symmetric])
    also have "\<dots> = dropWhile ?P b"
      using \<open>\<forall>x\<in>set (a @ sep). ?P x\<close> by (simp add: dropWhile_append)
    finally have "filter truthy (map trim (splitRuns cur (a @ sep @ b)))
                    = filter truthy (map trim [cur])
                      @ filter truthy (map trim (splitRuns [] (dropWhile ?P b)))"
      by simp
    then show ?thesis
      using splitRuns_all_run [OF True, of cur] splitRuns_skip_leading_run [of b] by simp
  next
    case False
    then obtain x where x: "x \<in> set a" "\<not> ?P x" by blast
    then obtain c a' where a: "a = c # a'" by (cases a) auto
    let ?R = "takeWhile ?P a"
    have run: "takeWhile ?P (a @ sep @ b) = ?R" using x by (rule takeWhile_append1)
    show ?thesis
    proof (cases "isSeparator ?R")
      case True
      then have ne: "?R \<noteq> []" by (rule isSeparator_nonempty)
      have le: "length ?R \<le> length a" by (rule length_takeWhile_le)
      from True have "isSeparator (takeWhile ?P (a @ sep @ b))" by (simp only: run)
      from splitRuns_at_separator [OF this, of cur]
      have "splitRuns cur (a @ sep @ b)
              = cur # splitRuns [] (drop (length ?R) (a @ sep @ b))" by (simp only: run)
      also have "drop (length ?R) (a @ sep @ b) = drop (length ?R) a @ sep @ b"
        using le by simp
      finally have l: "splitRuns cur (a @ sep @ b)
                         = cur # splitRuns [] (drop (length ?R) a @ sep @ b)" .
      have r: "splitRuns cur a = cur # splitRuns [] (drop (length ?R) a)"
        using True by (rule splitRuns_at_separator)
      have "length (drop (length ?R) a) < length a" using ne a by (cases ?R) auto
      with 1 have "filter truthy (map trim (splitRuns [] (drop (length ?R) a @ sep @ b)))
              = filter truthy (map trim (splitRuns [] (drop (length ?R) a)))
                @ filter truthy (map trim (splitRuns [] b))"
        by blast
      then show ?thesis by (simp add: l r)
    next
      case False
      have f: "\<not> isSeparator (takeWhile ?P (c # a'))"
        using False unfolding a by this
      have "\<not> isSeparator (takeWhile ?P (a @ sep @ b))" unfolding run by (rule False)
      then have g: "\<not> isSeparator (takeWhile ?P (c # (a' @ sep @ b)))"
        unfolding a by simp
      have l: "splitRuns cur (a @ sep @ b) = splitRuns (cur @ [c]) (a' @ sep @ b)"
        using g by (simp add: a Let_def)
      have r: "splitRuns cur a = splitRuns (cur @ [c]) a'"
        using f by (simp add: a Let_def)
      have "length a' < length a" by (simp add: a)
      with 1 have "filter truthy (map trim (splitRuns (cur @ [c]) (a' @ sep @ b)))
              = filter truthy (map trim (splitRuns (cur @ [c]) a'))
                @ filter truthy (map trim (splitRuns [] b))"
        by blast
      then show ?thesis by (simp only: l r)
    qed
  qed
qed

lemma splitOldUrls_inserted_separator:
  "isSeparator sep \<Longrightarrow> splitOldUrls (a @ sep @ b) = splitOldUrls a @ splitOldUrls b"
  by (simp add: splitOldUrls_refines splitOldUrlsSpec_def splitRuns_inserted_separator)


lemma splitOldUrls_no_payload: "\<forall>c\<in>set s. \<not> isPayloadChar c \<Longrightarrow> splitOldUrls s = []"
  using splitRuns_all_run [of s "[]"]
  by (simp add: splitOldUrls_refines splitOldUrlsSpec_def trim_Nil truthy_def)

section \<open>Lemmas on the run\<close>

lemma lineFeeds_append: "lineFeeds (xs @ ys) = lineFeeds xs + lineFeeds ys"
  by (simp add: lineFeeds_def)

lemma lineFeeds_prefix: "lineFeeds ''No media match for old_urls: '' = 0"
  by (simp add: lineFeeds_def)

lemma processProduct_enriched:
  "enriched (processProduct U pages byExact st p)
     = enriched st @ [outProduct (findPageMatch U pages byExact p) p]"
  by (simp add: processProduct_def Let_def split: option.splits)

lemma foldl_processProduct_enriched:
  "enriched (foldl (processProduct U pages byExact) st ps)
     = enriched st @ map (\<lambda>p. outProduct (findPageMatch U pages byExact p) p) ps"
  by (induction ps arbitrary: st) (simp_all add: processProduct_enriched)

lemma toInteger_of_nat: "toInteger (of_nat k) = int k"
  by (simp add: toInteger_def)

lemma relIndex_of_nat: "relIndex len (of_nat k) = min k len"
  by (simp add: relIndex_def toInteger_of_nat)

lemma relIndex_zero: "relIndex len 0 = 0"
  by (simp add: relIndex_def toInteger_def)

lemma sliceFromTo_of_nat: "sliceFromTo xs 0 (of_nat k) = take k xs"
  by (cases "k \<le> length xs") (simp_all add: sliceFromTo_def relIndex_of_nat relIndex_zero min_def)

lemma sliceFrom_of_nat: "sliceFrom xs (of_nat k) = drop k xs"
  by (simp add: sliceFrom_def relIndex_of_nat min_def)

lemma main_limit_written:
  assumes "k < length products"
  shows "written (main U (Some (of_nat k)) products pagesJson)
           = map (\<lambda>p. outProduct (findPageMatch U (loadPages U pagesJson)
                                      (buildIndex U (loadPages U pagesJson)) p) p)
                 (take k products)
             @ drop k products"
  using assms
  by (simp add: main_def Let_def sliceFromTo_of_nat sliceFrom_of_nat
        foldl_processProduct_enriched)

lemma outProduct_has_images: "''images'' \<in> fst ` set (outProduct m p)"
proof -
  have u: "k \<in> fst ` set (AList.update k v al)" for k :: string and v :: json and al
    by (induction al) auto
  have v: "k \<in> fst ` set (AList.update k' v al)" if "k \<in> fst ` set al"
    for k k' :: string and v :: json and al
    using that by (induction al) auto
  show ?thesis
    by (simp add: outProduct_def Let_def u v del: AList.update.simps split: option.splits)
qed

lemma outProduct_other_fields:
  "key \<noteq> ''images'' \<Longrightarrow> key \<noteq> ''mapIframe'' \<Longrightarrow> map_of (outProduct m p) key = map_of p key"
  by (simp add: outProduct_def Let_def update_conv' split: option.splits)

lemma filter_keys_update:
  "P k = False \<Longrightarrow> filter P (map fst (AList.update k v al)) = filter P (map fst al)"
  by (simp add: update_keys)

lemma outProduct_other_keys:
  "filter (\<lambda>key. key \<noteq> ''images'' \<and> key \<noteq> ''mapIframe'') (map fst (outProduct m p))
     = filter (\<lambda>key. key \<noteq> ''images'' \<and> key \<noteq> ''mapIframe'') (map fst p)"
  by (simp add: outProduct_def Let_def filter_keys_update split: option.splits)

section \<open>Lemmas on tier 1\<close>

lemma firstHit_append:
  "firstHit idx (as @ bs) = (case firstHit idx as of Some p \<Rightarrow> Some p | None \<Rightarrow> firstHit idx bs)"
  by (induction as) (auto split: option.splits)

lemma tier1_firstHit:
  "tier1 U idx oldUrls = firstHit idx (concat (map (deriveCandidatesFromOldUrl U) oldUrls))"
  by (induction oldUrls) (auto simp: firstHit_append split: option.splits)

lemma firstHit_find:
  "firstHit idx cands = (case find (\<lambda>c. idx c \<noteq> None) cands of None \<Rightarrow> None | Some c \<Rightarrow> idx c)"
  by (induction cands) (auto split: option.splits)

lemma firstHit_hit: "c \<in> set cands \<Longrightarrow> idx c \<noteq> None \<Longrightarrow> \<exists>p. firstHit idx cands = Some p"
  by (induction cands) (auto split: option.splits)

lemma firstHit_Some: "firstHit idx cands = Some p \<Longrightarrow> \<exists>c\<in>set cands. idx c = Some p"
  by (induction cands) (auto split: option.splits)

lemma buildIndex_step:
  "foldl (indexPage U) m pages key = Some p
   \<Longrightarrow> m key = Some p
       \<or> (p \<in> set pages \<and> (full (normalizeForMatch U (link p)) = key
                             \<or> noQuery (normalizeForMatch U (link p)) = key))"
proof (induction pages arbitrary: m)
  case Nil
  then show ?case by simp
next
  case (Cons q pages)
  from Cons.prems have "foldl (indexPage U) (indexPage U m q) pages key = Some p"
    by simp
  from Cons.IH [OF this] show ?case
    by (auto simp: indexPage_def Let_def split: if_splits)
qed

lemma buildIndex_Some:
  "buildIndex U pages key = Some p
   \<Longrightarrow> p \<in> set pages \<and> (full (normalizeForMatch U (link p)) = key
                          \<or> noQuery (normalizeForMatch U (link p)) = key)"
  unfolding buildIndex_def by (drule buildIndex_step) simp

lemma findPageMatch_tier1:
  "tier1 U idx (oldUrlsOf product) = Some p \<Longrightarrow> findPageMatch U scanned idx product = Some p"
  by (simp add: findPageMatch_def Let_def)

section \<open>Lemmas on tier 2\<close>

lemma scanTails_first:
  "scanTails pages [] ts
     = (case find (\<lambda>t. tailHits pages t \<noteq> []) ts of None \<Rightarrow> [] | Some t \<Rightarrow> tailHits pages t)"
  by (induction ts) (simp_all add: Let_def)

lemma uniq_set: "set (uniq seen xs) = set seen \<union> set xs"
  by (induction xs arbitrary: seen) auto

lemma uniq_distinct: "distinct seen \<Longrightarrow> distinct (uniq seen xs)"
  by (induction xs arbitrary: seen) auto

lemma sort_key_head:
  assumes "pool \<noteq> []"
  shows "\<exists>p rest. sort_key f pool = p # rest \<and> p \<in> set pool \<and> (\<forall>c\<in>set pool. f p \<le> f c)
           \<and> p = hd (filter (\<lambda>c. f c = f p) pool)"
proof -
  have "sort_key f pool \<noteq> []" using assms by (metis length_0_conv length_sort)
  then obtain p rest where pr: "sort_key f pool = p # rest" by (cases "sort_key f pool") auto
  have "p \<in> set (sort_key f pool)" by (simp add: pr)
  then have mem: "p \<in> set pool" by simp
  have "sorted (map f (sort_key f pool))" by (rule sorted_sort_key)
  then have "\<forall>c\<in>set (sort_key f pool). f p \<le> f c" by (auto simp: pr)
  then have le: "\<forall>c\<in>set pool. f p \<le> f c" by simp
  have "filter (\<lambda>c. f c = f p) (sort_key f pool) = filter (\<lambda>c. f c = f p) pool"
    by (rule sort_key_stable)
  then have "filter (\<lambda>c. f c = f p) pool = p # filter (\<lambda>c. f c = f p) rest"
    by (simp add: pr)
  then have "hd (filter (\<lambda>c. f c = f p) pool) = p" by simp
  with pr mem le show ?thesis by auto
qed

lemma preferBestMatch_pool:
  assumes "candidates \<noteq> []"
  shows "\<exists>p. preferBestMatch candidates lang = Some p
           \<and> p \<in> set candidates
           \<and> ((\<exists>c\<in>set candidates. includesStr (link c) (langSegment lang))
                \<longrightarrow> includesStr (link p) (langSegment lang))
           \<and> (\<forall>c\<in>set candidates.
                 includesStr (link c) (langSegment lang)
                 \<or> \<not> (\<exists>c'\<in>set candidates. includesStr (link c') (langSegment lang))
                 \<longrightarrow> length (link p) \<le> length (link c))"
proof -
  let ?byLang = "filter (\<lambda>c. includesStr (link c) (langSegment lang)) candidates"
  let ?pool = "if ?byLang \<noteq> [] then ?byLang else candidates"
  have ne: "?pool \<noteq> []" using assms by simp
  from sort_key_head [OF ne, of "\<lambda>c. length (link c)"]
  obtain p rest where pr: "sort_key (\<lambda>c. length (link c)) ?pool = p # rest"
    and mem: "p \<in> set ?pool" and le: "\<forall>c\<in>set ?pool. length (link p) \<le> length (link c)"
    by blast
  have res: "preferBestMatch candidates lang = Some p"
    using pr by (simp add: preferBestMatch_def Let_def)
  show ?thesis
  proof (cases "?byLang = []")
    case True
    then have none: "\<not> (\<exists>c\<in>set candidates. includesStr (link c) (langSegment lang))"
      by (simp add: filter_empty_conv)
    from True mem le res none show ?thesis by auto
  next
    case False
    then have some: "\<exists>c\<in>set candidates. includesStr (link c) (langSegment lang)"
      by (simp add: filter_empty_conv)
    from False mem le res some show ?thesis by auto
  qed
qed

lemma preferBestMatch_two:
  assumes "length (link a) < length (link b)"
    and "\<not> includesStr (link a) (langSegment lang)" and "\<not> includesStr (link b) (langSegment lang)"
  shows "preferBestMatch [a, b] lang = Some a \<and> preferBestMatch [b, a] lang = Some a"
  using assms by (simp add: preferBestMatch_def)

section \<open>Normalisation of malformed input\<close>

text \<open>
  C9 does not hold as stated: a string that does not parse as a URL is returned
  trimmed and with every escaped slash \<^verbatim>\<open>\/\<close> replaced by \<^verbatim>\<open>/\<close>, so
  \<^verbatim>\<open>a\/b\<close> comes back as \<^verbatim>\<open>a/b\<close>, which is not the trimmed input.
\<close>

theorem normalizeForMatch_unparsable_not_trimmed_input:
  "newURL simpleURL [CHR ''a'', CHR 0x5C, CHR ''/'', CHR ''b''] = None
   \<and> newURL simpleURL (unescapeSlashes (trim [CHR ''a'', CHR 0x5C, CHR ''/'', CHR ''b''])) = None
   \<and> trim [CHR ''a'', CHR 0x5C, CHR ''/'', CHR ''b''] = [CHR ''a'', CHR 0x5C, CHR ''/'', CHR ''b'']
   \<and> normalizeForMatch simpleURL [CHR ''a'', CHR 0x5C, CHR ''/'', CHR ''b'']
       = \<lparr> full = ''a/b'', noQuery = ''a/b'' \<rparr>
   \<and> full (normalizeForMatch simpleURL [CHR ''a'', CHR 0x5C, CHR ''/'', CHR ''b''])
       \<noteq> trim [CHR ''a'', CHR 0x5C, CHR ''/'', CHR ''b'']"
  by code_simp

text \<open>
  C9, amended. If the trimmed input with its escaped slashes replaced does not parse as a
  URL, \<^verbatim>\<open>normalizeForMatch\<close> returns that string in both forms (the model has no
  failing branch: the two constructor calls are the only operations that can throw, and
  both are caught); where the trimmed input has no escaped slash, that is the trimmed
  input itself.
\<close>

theorem normalizeForMatch_unparsable:
  assumes "newURL U (unescapeSlashes (trim input)) = None"
  shows "normalizeForMatch U input
           = \<lparr> full = unescapeSlashes (trim input), noQuery = unescapeSlashes (trim input) \<rparr>
         \<and> (\<not> includesStr (trim input) [CHR 0x5C, CHR ''/'']
            \<longrightarrow> normalizeForMatch U input = \<lparr> full = trim input, noQuery = trim input \<rparr>)"
proof -
  have n: "normalizeUrlish U input = unescapeSlashes (trim input)"
    using assms by (rule normalizeUrlish_unparsable)
  have r: "normalizeForMatch U input
             = \<lparr> full = unescapeSlashes (trim input), noQuery = unescapeSlashes (trim input) \<rparr>"
    using normalizeForMatch_of_unparsable [of U input] assms n by simp
  have "unescapeSlashes (trim input) = trim input"
    if "\<not> includesStr (trim input) [CHR 0x5C, CHR ''/'']"
    using that by (simp add: unescapeSlashes_def replaceAll_absent)
  with r show ?thesis by simp
qed

theorem normalizeForMatch_unparsable_witness:
  "newURL simpleURL (unescapeSlashes (trim '' x.test/a '')) = None
   \<and> normalizeForMatch simpleURL '' x.test/a '' = \<lparr> full = ''x.test/a'', noQuery = ''x.test/a'' \<rparr>"
proof -
  have h: "newURL simpleURL (unescapeSlashes (trim '' x.test/a '')) = None"
    by code_simp
  have e: "unescapeSlashes (trim '' x.test/a '') = ''x.test/a''" by code_simp
  from normalizeForMatch_unparsable [OF h]
  have "normalizeForMatch simpleURL '' x.test/a ''
          = \<lparr> full = unescapeSlashes (trim '' x.test/a ''),
              noQuery = unescapeSlashes (trim '' x.test/a '') \<rparr>"
    by (rule conjunct1)
  with h e show ?thesis by simp
qed

section \<open>Idempotence of normalisation\<close>

text \<open>
  C3 does not hold as stated: normalisation replaces escaped slashes once, and the
  result can contain an escaped slash again. The input backslash, backslash, slash is
  normalised to backslash, slash, and that to a single slash.
\<close>

theorem normalizeForMatch_not_idempotent:
  "normalizeForMatch simpleURL [CHR 0x5C, CHR 0x5C, CHR ''/'']
     = \<lparr> full = [CHR 0x5C, CHR ''/''], noQuery = [CHR 0x5C, CHR ''/''] \<rparr>
   \<and> normalizeForMatch simpleURL
         (full (normalizeForMatch simpleURL [CHR 0x5C, CHR 0x5C, CHR ''/'']))
       = \<lparr> full = ''/'', noQuery = ''/'' \<rparr>
   \<and> normalizeForMatch simpleURL
         (full (normalizeForMatch simpleURL [CHR 0x5C, CHR 0x5C, CHR ''/'']))
       \<noteq> normalizeForMatch simpleURL [CHR 0x5C, CHR 0x5C, CHR ''/'']
   \<and> normalizeUrlish simpleURL (normalizeUrlish simpleURL [CHR 0x5C, CHR 0x5C, CHR ''/''])
       \<noteq> normalizeUrlish simpleURL [CHR 0x5C, CHR 0x5C, CHR ''/'']"
  by code_simp

text \<open>
  C3, amended. Re-normalising a result gives the same result when nothing is left in it
  to trim or to unescape and the platform parses its own serialisation back:
  \<^item> if the normalised string does not parse and trimming and unescaping leave it
    unchanged, \<^verbatim>\<open>normalizeUrlish\<close> returns it unchanged and \<^verbatim>\<open>normalizeForMatch\<close>
    of either component returns the same pair;
  \<^item> this is the case for every input whose trimmed and unescaped form does not parse
    and contains no escaped slash;
  \<^item> if the normalised string parses to a URL object for which \<^const>\<open>reparses\<close> holds,
    \<^verbatim>\<open>normalizeForMatch\<close> of the full component returns the same pair, and
    \<^verbatim>\<open>normalizeUrlish\<close> returns the normalised string unchanged if that object
    serialises to it;
  \<^item> if \<^const>\<open>reparses\<close> holds for that object with its query removed, and removing
    the query again changes nothing, \<^verbatim>\<open>normalizeForMatch\<close> of the no-query component
    returns the pair with the no-query component in both places.
\<close>

theorem normalizeForMatch_idempotent:
  "(newURL U (normalizeUrlish U input) = None
      \<and> unescapeSlashes (trim (normalizeUrlish U input)) = normalizeUrlish U input
    \<longrightarrow> normalizeUrlish U (normalizeUrlish U input) = normalizeUrlish U input
        \<and> normalizeForMatch U (full (normalizeForMatch U input)) = normalizeForMatch U input
        \<and> normalizeForMatch U (noQuery (normalizeForMatch U input)) = normalizeForMatch U input)
   \<and> (newURL U (unescapeSlashes (trim input)) = None
        \<and> \<not> includesStr (unescapeSlashes (trim input)) [CHR 0x5C, CHR ''/'']
      \<longrightarrow> normalizeUrlish U (normalizeUrlish U input) = normalizeUrlish U input
        \<and> normalizeForMatch U (full (normalizeForMatch U input)) = normalizeForMatch U input
        \<and> normalizeForMatch U (noQuery (normalizeForMatch U input)) = normalizeForMatch U input)
   \<and> (\<forall>v. newURL U (normalizeUrlish U input) = Some v \<and> reparses U v
        \<longrightarrow> normalizeForMatch U (full (normalizeForMatch U input)) = normalizeForMatch U input
          \<and> (toString U v = normalizeUrlish U input
               \<longrightarrow> normalizeUrlish U (normalizeUrlish U input) = normalizeUrlish U input))
   \<and> (\<forall>v. newURL U (normalizeUrlish U input) = Some v \<and> reparses U (setSearchEmpty U v)
            \<and> toString U (setSearchEmpty U (setSearchEmpty U v)) = toString U (setSearchEmpty U v)
        \<longrightarrow> normalizeForMatch U (noQuery (normalizeForMatch U input))
             = \<lparr> full = noQuery (normalizeForMatch U input),
                 noQuery = noQuery (normalizeForMatch U input) \<rparr>)"
  (is "?A \<and> ?B \<and> ?C \<and> ?D")
proof -
  let ?n = "normalizeUrlish U input"
  have A: ?A
  proof (intro impI, elim conjE)
    assume p: "newURL U ?n = None" and f: "unescapeSlashes (trim ?n) = ?n"
    have r: "normalizeForMatch U input = \<lparr> full = ?n, noQuery = ?n \<rparr>"
      using p by (rule normalizeForMatch_of_unparsable)
    show "normalizeUrlish U ?n = ?n
        \<and> normalizeForMatch U (full (normalizeForMatch U input)) = normalizeForMatch U input
        \<and> normalizeForMatch U (noQuery (normalizeForMatch U input)) = normalizeForMatch U input"
      using p f by (simp add: r normalizeUrlish_fixed_unparsable normalizeForMatch_fixed_unparsable)
  qed
  have B: ?B
  proof (intro impI, elim conjE)
    let ?s = "unescapeSlashes (trim input)"
    assume p: "newURL U ?s = None" and f: "\<not> includesStr ?s [CHR 0x5C, CHR ''/'']"
    have n: "?n = ?s" using p by (rule normalizeUrlish_unparsable)
    have "unescapeSlashes (trim ?s) = unescapeSlashes ?s" by (simp add: trim_unescape_trim)
    also have "\<dots> = ?s" using f by (simp add: unescapeSlashes_def [of ?s] replaceAll_absent)
    finally have "unescapeSlashes (trim ?n) = ?n" using n by simp
    moreover have "newURL U ?n = None" using p n by simp
    ultimately show "normalizeUrlish U ?n = ?n
        \<and> normalizeForMatch U (full (normalizeForMatch U input)) = normalizeForMatch U input
        \<and> normalizeForMatch U (noQuery (normalizeForMatch U input)) = normalizeForMatch U input"
      using A by blast
  qed
  have C: ?C
  proof (intro allI impI, elim conjE)
    fix v
    assume p: "newURL U ?n = Some v" and s: "reparses U v"
    have r: "normalizeForMatch U input
               = \<lparr> full = toString U v, noQuery = toString U (setSearchEmpty U v) \<rparr>"
      using p by (rule normalizeForMatch_of_parsable)
    show "normalizeForMatch U (full (normalizeForMatch U input)) = normalizeForMatch U input
          \<and> (toString U v = ?n \<longrightarrow> normalizeUrlish U ?n = ?n)"
      using s by (auto simp add: r normalizeForMatch_reparses dest: normalizeUrlish_reparses)
  qed
  have D: ?D
  proof (intro allI impI, elim conjE)
    fix v
    assume p: "newURL U ?n = Some v" and s: "reparses U (setSearchEmpty U v)"
      and q: "toString U (setSearchEmpty U (setSearchEmpty U v)) = toString U (setSearchEmpty U v)"
    have r: "normalizeForMatch U input
               = \<lparr> full = toString U v, noQuery = toString U (setSearchEmpty U v) \<rparr>"
      using p by (rule normalizeForMatch_of_parsable)
    show "normalizeForMatch U (noQuery (normalizeForMatch U input))
             = \<lparr> full = noQuery (normalizeForMatch U input),
                 noQuery = noQuery (normalizeForMatch U input) \<rparr>"
      using normalizeForMatch_reparses [OF s] q by (simp add: r)
  qed
  from A B C D show ?thesis by blast
qed

theorem normalizeForMatch_idempotent_witness:
  "newURL simpleURL (normalizeUrlish simpleURL '' x.test/a '') = None
   \<and> normalizeForMatch simpleURL (full (normalizeForMatch simpleURL '' x.test/a ''))
       = normalizeForMatch simpleURL '' x.test/a ''
   \<and> newURL simpleURL (normalizeUrlish simpleURL ''https://x.test/a?b=1#c'')
       = Some \<lparr> su_origin = ''https://x.test'', su_path = ''/a'', su_query = Some ''b=1'',
                 su_fragment = None \<rparr>
   \<and> normalizeForMatch simpleURL (full (normalizeForMatch simpleURL ''https://x.test/a?b=1#c''))
       = normalizeForMatch simpleURL ''https://x.test/a?b=1#c''
   \<and> normalizeUrlish simpleURL (normalizeUrlish simpleURL ''https://x.test/a?b=1#c'')
       = normalizeUrlish simpleURL ''https://x.test/a?b=1#c''
   \<and> normalizeForMatch simpleURL (noQuery (normalizeForMatch simpleURL ''https://x.test/a?b=1#c''))
       = \<lparr> full = ''https://x.test/a'', noQuery = ''https://x.test/a'' \<rparr>"
proof -
  let ?v = "\<lparr> su_origin = ''https://x.test'', su_path = ''/a'', su_query = Some ''b=1'',
              su_fragment = None \<rparr>"
  have a1: "newURL simpleURL (unescapeSlashes (trim '' x.test/a '')) = None"
    by code_simp
  have a2: "\<not> includesStr (unescapeSlashes (trim '' x.test/a '')) [CHR 0x5C, CHR ''/'']"
    by code_simp
  have a3: "newURL simpleURL (normalizeUrlish simpleURL '' x.test/a '') = None"
    by code_simp
  have b1: "newURL simpleURL (normalizeUrlish simpleURL ''https://x.test/a?b=1#c'') = Some ?v"
    by code_simp
  have b2: "reparses simpleURL ?v"
    by code_simp
  have b3: "toString simpleURL ?v = normalizeUrlish simpleURL ''https://x.test/a?b=1#c''"
    by code_simp
  have c1: "reparses simpleURL (setSearchEmpty simpleURL ?v)"
    by code_simp
  have c2: "toString simpleURL (setSearchEmpty simpleURL (setSearchEmpty simpleURL ?v))
              = toString simpleURL (setSearchEmpty simpleURL ?v)"
    by code_simp
  have c3: "noQuery (normalizeForMatch simpleURL ''https://x.test/a?b=1#c'') = ''https://x.test/a''"
    by code_simp
  have "normalizeForMatch simpleURL (full (normalizeForMatch simpleURL '' x.test/a ''))
          = normalizeForMatch simpleURL '' x.test/a ''"
    using normalizeForMatch_idempotent [of simpleURL "'' x.test/a ''"] a1 a2 by blast
  moreover have "normalizeForMatch simpleURL (full (normalizeForMatch simpleURL ''https://x.test/a?b=1#c''))
          = normalizeForMatch simpleURL ''https://x.test/a?b=1#c''
       \<and> normalizeUrlish simpleURL (normalizeUrlish simpleURL ''https://x.test/a?b=1#c'')
          = normalizeUrlish simpleURL ''https://x.test/a?b=1#c''"
    using normalizeForMatch_idempotent [of simpleURL "''https://x.test/a?b=1#c''"] b1 b2 b3
    by blast
  moreover have "normalizeForMatch simpleURL (noQuery (normalizeForMatch simpleURL ''https://x.test/a?b=1#c''))
          = \<lparr> full = noQuery (normalizeForMatch simpleURL ''https://x.test/a?b=1#c''),
              noQuery = noQuery (normalizeForMatch simpleURL ''https://x.test/a?b=1#c'') \<rparr>"
    using normalizeForMatch_idempotent [of simpleURL "''https://x.test/a?b=1#c''"] b1 c1 c2
    by blast
  ultimately show ?thesis using a3 b1 c3 by simp
qed

section \<open>Tier 3: the acceptance threshold\<close>

text \<open>
  C1. Tier 3 should accept a page only if its score includes at least one token hit; the
  language bonus alone should never qualify. The source compares the best score with 2,
  and the bonus alone is 3: on one page under \<^verbatim>\<open>/nl/\<close> and the single token
  \<^verbatim>\<open>zzz\<close>, which occurs nowhere in the link, the page scores 3 without a token hit
  and \<^verbatim>\<open>bestTokenMatch\<close> returns it; so does tier 3 for the slug
  \<^verbatim>\<open>/golfreizen/nl/zzz\<close>.
\<close>

theorem bestTokenMatch_language_bonus_alone:
  "scorePageForTokens ''https://x.test/nl/home'' [''zzz''] NL = 3
   \<and> includesStr (toLowerCase ''https://x.test/nl/home'') ''zzz'' = False
   \<and> bestTokenMatch
         [\<lparr> link = ''https://x.test/nl/home'', images = [''https://x.test/h.jpg''],
             mapIframe = None \<rparr>] [''zzz''] NL
       = Some \<lparr> link = ''https://x.test/nl/home'', images = [''https://x.test/h.jpg''],
                 mapIframe = None \<rparr>
   \<and> tokenizeSlug ''/golfreizen/nl/zzz'' = [''zzz'']
   \<and> tier3
         [\<lparr> link = ''https://x.test/nl/home'', images = [''https://x.test/h.jpg''],
             mapIframe = None \<rparr>] ''/golfreizen/nl/zzz''
       = Some \<lparr> link = ''https://x.test/nl/home'', images = [''https://x.test/h.jpg''],
                 mapIframe = None \<rparr>"
  by code_simp

section \<open>Accounting of unmatched products\<close>

text \<open>
  C7 does not hold as stated: the text written to the error stream embeds the raw
  \<^verbatim>\<open>old_urls\<close> field, and legacy URLs are commonly separated by line feeds. For
  \<^verbatim>\<open>old_urls\<close> holding \<^verbatim>\<open>a.com\<close>, a line feed and \<^verbatim>\<open>b.com\<close>, and no page to
  match, the one write puts two lines on the error stream.
\<close>

theorem unmatched_accounting_two_lines:
  "findPageMatch simpleURL [] Map.empty
      [(''old_urls'', JStr (''a.com'' @ [CHR 0x0A] @ ''b.com''))] = None
   \<and> errStream (processProduct simpleURL [] Map.empty
         \<lparr> enriched = [], matched = 0, unmatched = 0, errStream = [] \<rparr>
         [(''old_urls'', JStr (''a.com'' @ [CHR 0x0A] @ ''b.com''))])
       = [''No media match for old_urls: a.com'' @ [CHR 0x0A] @ ''b.com'' @ [CHR 0x0A]]
   \<and> lineFeeds (concat (errStream (processProduct simpleURL [] Map.empty
         \<lparr> enriched = [], matched = 0, unmatched = 0, errStream = [] \<rparr>
         [(''old_urls'', JStr (''a.com'' @ [CHR 0x0A] @ ''b.com''))]))) = 2"
  by code_simp

text \<open>
  C7, amended. When no tier yields a match for a processed product, the iteration
  pushes the product with \<^verbatim>\<open>images\<close> set to the empty array, adds one to
  \<^verbatim>\<open>unmatched\<close> and leaves \<^verbatim>\<open>matched\<close> as it is. If the product's \<^verbatim>\<open>old_urls\<close>
  is a non-empty string it writes to the error stream once, the text
  \<^verbatim>\<open>No media match for old_urls: \<close> followed by the raw field and a line feed;
  otherwise it writes nothing. The write adds one line plus one for every line feed in
  the field, so it is a single line exactly when the field holds no line feed.
\<close>

theorem unmatched_accounting:
  assumes "findPageMatch U pages byExact product = None"
  shows "processProduct U pages byExact st product =
           st\<lparr> enriched := enriched st @ [AList.update ''images'' (JArr []) product],
               unmatched := unmatched st + 1,
               errStream := errStream st @
                 (case map_of product ''old_urls'' of
                    Some (JStr s) \<Rightarrow>
                      if s \<noteq> [] then [''No media match for old_urls: '' @ s @ [CHR 0x0A]]
                      else []
                  | _ \<Rightarrow> []) \<rparr>
         \<and> matched (processProduct U pages byExact st product) = matched st
         \<and> lineFeeds (concat (errStream (processProduct U pages byExact st product)))
             = lineFeeds (concat (errStream st))
               + (case map_of product ''old_urls'' of
                    Some (JStr s) \<Rightarrow> if s \<noteq> [] then 1 + lineFeeds s else 0
                  | _ \<Rightarrow> 0)"
  using assms
  by (simp add: processProduct_def outProduct_def stringField_def diagnostic_def
        lineFeeds_append lineFeeds_prefix
        split: option.splits json.splits)
     (simp add: lineFeeds_def)

theorem unmatched_accounting_witness:
  "findPageMatch simpleURL [] Map.empty [(''old_urls'', JStr ''https://x.test/gone'')] = None
   \<and> processProduct simpleURL [] Map.empty
        \<lparr> enriched = [], matched = 0, unmatched = 0, errStream = [] \<rparr>
        [(''old_urls'', JStr ''https://x.test/gone'')]
      = \<lparr> enriched = [[(''old_urls'', JStr ''https://x.test/gone''), (''images'', JArr [])]],
          matched = 0, unmatched = 1,
          errStream = [''No media match for old_urls: https://x.test/gone'' @ [CHR 0x0A]] \<rparr>
   \<and> lineFeeds (concat (errStream (processProduct simpleURL [] Map.empty
        \<lparr> enriched = [], matched = 0, unmatched = 0, errStream = [] \<rparr>
        [(''old_urls'', JStr ''https://x.test/gone'')]))) = 1"
proof -
  have h: "findPageMatch simpleURL [] Map.empty
             [(''old_urls'', JStr ''https://x.test/gone'')] = None"
    by code_simp
  let ?st = "\<lparr> enriched = [], matched = 0, unmatched = 0, errStream = [] \<rparr>"
  let ?out = "\<lparr> enriched = [[(''old_urls'', JStr ''https://x.test/gone''), (''images'', JArr [])]],
          matched = 0, unmatched = 1,
          errStream = [''No media match for old_urls: https://x.test/gone'' @ [CHR 0x0A]] \<rparr>"
  from unmatched_accounting [OF h, of ?st]
  have e: "processProduct simpleURL [] Map.empty ?st [(''old_urls'', JStr ''https://x.test/gone'')]
             = ?out"
    by simp
  have l: "lineFeeds (concat (errStream ?out)) = 1" by code_simp
  show ?thesis unfolding e by (simp only: h l simp_thms)
qed

section \<open>A negative limit\<close>

text \<open>
  C10. With a negative \<^verbatim>\<open>--limit\<close> no product is processed and every product should
  reach the output as it is. The processed part is cut with \<^verbatim>\<open>Math.max(0, limit)\<close>,
  but the rest is taken with \<^verbatim>\<open>products.slice(limit)\<close>, and a negative start counts
  from the end: with three products and limit -1 only the last one is written.
\<close>

theorem main_negative_limit_drops_products:
  "main simpleURL (Some (- 1))
     [[(''slug'', JStr ''a'')], [(''slug'', JStr ''b'')], [(''slug'', JStr ''c'')]] []
   = \<lparr> written = [[(''slug'', JStr ''c'')]], summaryCount = 1, summaryMatched = 0,
       summaryUnmatched = 0, diagnostics = [] \<rparr>"
  by code_simp

section \<open>The limit\<close>

text \<open>
  C6. For a product list of length \<open>n\<close> and a limit \<open>k\<close> with \<open>0 \<le> k < n\<close>, the
  written array has length \<open>n\<close>; from index \<open>k\<close> on it holds the input products as
  they are; every product at an index below \<open>k\<close> stands at the same index, has an
  \<^verbatim>\<open>images\<close> property, and keeps the value and the order of every property other than
  \<^verbatim>\<open>images\<close> and \<^verbatim>\<open>mapIframe\<close>.
\<close>

theorem limit_boundary:
  assumes "k < length products"
  shows "length (written (main U (Some (of_nat k)) products pagesJson)) = length products
         \<and> drop k (written (main U (Some (of_nat k)) products pagesJson)) = drop k products
         \<and> (\<forall>i<k. ''images'' \<in> fst ` set (written (main U (Some (of_nat k)) products pagesJson) ! i)
                 \<and> (\<forall>key. key \<noteq> ''images'' \<and> key \<noteq> ''mapIframe''
                      \<longrightarrow> map_of (written (main U (Some (of_nat k)) products pagesJson) ! i) key
                          = map_of (products ! i) key)
                 \<and> filter (\<lambda>key. key \<noteq> ''images'' \<and> key \<noteq> ''mapIframe'')
                      (map fst (written (main U (Some (of_nat k)) products pagesJson) ! i))
                   = filter (\<lambda>key. key \<noteq> ''images'' \<and> key \<noteq> ''mapIframe'')
                      (map fst (products ! i)))"
proof -
  let ?f = "\<lambda>p. outProduct (findPageMatch U (loadPages U pagesJson)
                              (buildIndex U (loadPages U pagesJson)) p) p"
  let ?out = "written (main U (Some (of_nat k)) products pagesJson)"
  have w: "?out = map ?f (take k products) @ drop k products"
    using assms by (rule main_limit_written)
  have len: "length (map ?f (take k products)) = k" using assms by simp
  have 1: "length ?out = length products" using assms by (simp add: w)
  have 2: "drop k ?out = drop k products" using len by (simp add: w)
  have 3: "?out ! i = ?f (products ! i)" if "i < k" for i
    using that assms len by (simp add: w nth_append)
  have 4: "''images'' \<in> fst ` set (?out ! i)
           \<and> (\<forall>key. key \<noteq> ''images'' \<and> key \<noteq> ''mapIframe''
                  \<longrightarrow> map_of (?out ! i) key = map_of (products ! i) key)
           \<and> filter (\<lambda>key. key \<noteq> ''images'' \<and> key \<noteq> ''mapIframe'') (map fst (?out ! i))
             = filter (\<lambda>key. key \<noteq> ''images'' \<and> key \<noteq> ''mapIframe'') (map fst (products ! i))"
    if "i < k" for i
    unfolding 3 [OF that]
    using outProduct_has_images outProduct_other_fields outProduct_other_keys by blast
  from 1 2 4 show ?thesis by blast
qed

theorem limit_boundary_witness:
  "(1::nat) < length [[(''slug'', JStr ''a'')], [(''slug'', JStr ''b'')], [(''slug'', JStr ''c'')]]
   \<and> length (written (main simpleURL (Some (of_nat 1))
         [[(''slug'', JStr ''a'')], [(''slug'', JStr ''b'')], [(''slug'', JStr ''c'')]] [])) = 3
   \<and> drop 1 (written (main simpleURL (Some (of_nat 1))
         [[(''slug'', JStr ''a'')], [(''slug'', JStr ''b'')], [(''slug'', JStr ''c'')]] []))
       = [[(''slug'', JStr ''b'')], [(''slug'', JStr ''c'')]]
   \<and> ''images'' \<in> fst ` set (written (main simpleURL (Some (of_nat 1))
         [[(''slug'', JStr ''a'')], [(''slug'', JStr ''b'')], [(''slug'', JStr ''c'')]] []) ! 0)"
proof -
  let ?ps = "[[(''slug'', JStr ''a'')], [(''slug'', JStr ''b'')], [(''slug'', JStr ''c'')]]"
  have h: "(1::nat) < length ?ps" by simp
  from limit_boundary [OF h, of simpleURL "[]"] show ?thesis by simp
qed

section \<open>Tier priority\<close>

text \<open>
  C4. If one of the candidates derived from the product's legacy URLs is a key of the
  exact index, the matcher returns the page that the index holds for the first such
  candidate, a page whose full or no-query URL is that candidate. The result is that
  of tier 1 alone: it is the same for every list of pages handed to tiers 2 and 3 and
  for every product with the same legacy URLs, whatever its slug, so no other page,
  and in particular no page that tier 3 would pick from the slug, is returned.
\<close>

theorem tier_priority:
  assumes "c \<in> set (concat (map (deriveCandidatesFromOldUrl U) (oldUrlsOf product)))"
    and "buildIndex U pages c \<noteq> None"
  shows "\<exists>p. firstHit (buildIndex U pages)
               (concat (map (deriveCandidatesFromOldUrl U) (oldUrlsOf product))) = Some p
           \<and> tier1 U (buildIndex U pages) (oldUrlsOf product) = Some p
           \<and> findPageMatch U scanned (buildIndex U pages) product = Some p
           \<and> (\<forall>product'. oldUrlsOf product' = oldUrlsOf product
                 \<longrightarrow> findPageMatch U scanned (buildIndex U pages) product' = Some p)
           \<and> (\<forall>q. q \<noteq> p \<longrightarrow> findPageMatch U scanned (buildIndex U pages) product \<noteq> Some q)
           \<and> p \<in> set pages
           \<and> (\<exists>c'\<in>set (concat (map (deriveCandidatesFromOldUrl U) (oldUrlsOf product))).
                 buildIndex U pages c' = Some p
                 \<and> (full (normalizeForMatch U (link p)) = c'
                    \<or> noQuery (normalizeForMatch U (link p)) = c'))"
proof -
  let ?idx = "buildIndex U pages"
  let ?cands = "concat (map (deriveCandidatesFromOldUrl U) (oldUrlsOf product))"
  from firstHit_hit [of c ?cands ?idx] assms obtain p where p: "firstHit ?idx ?cands = Some p" by blast
  then have t: "tier1 U ?idx (oldUrlsOf product) = Some p" by (simp add: tier1_firstHit)
  then have f: "findPageMatch U scanned ?idx product = Some p" by (rule findPageMatch_tier1)
  have g: "findPageMatch U scanned ?idx product' = Some p"
    if "oldUrlsOf product' = oldUrlsOf product" for product'
    using t that by (simp add: findPageMatch_tier1)
  from firstHit_Some [OF p] obtain c' where c': "c' \<in> set ?cands" "?idx c' = Some p" by blast
  from buildIndex_Some [OF c'(2)] have "p \<in> set pages"
    and "full (normalizeForMatch U (link p)) = c' \<or> noQuery (normalizeForMatch U (link p)) = c'"
    by simp_all
  with p t f g c' show ?thesis by auto
qed

theorem tier_priority_witness:
  "''https://x.test/nl/foo-tour''
     \<in> set (concat (map (deriveCandidatesFromOldUrl simpleURL)
           (oldUrlsOf [(''slug'', JStr ''/golfreizen/nl/bar-baz''),
                       (''old_urls'', JStr ''https://x.test/nl/golfreis/foo-tour'')])))
   \<and> tier3 [\<lparr> link = ''https://x.test/nl/foo-tour'', images = [''https://x.test/a.jpg''],
               mapIframe = None \<rparr>,
             \<lparr> link = ''https://x.test/nl/bar-baz'', images = [''https://x.test/b.jpg''],
               mapIframe = None \<rparr>] ''/golfreizen/nl/bar-baz''
       = Some \<lparr> link = ''https://x.test/nl/bar-baz'', images = [''https://x.test/b.jpg''],
                 mapIframe = None \<rparr>
   \<and> findPageMatch simpleURL
         [\<lparr> link = ''https://x.test/nl/foo-tour'', images = [''https://x.test/a.jpg''],
             mapIframe = None \<rparr>,
          \<lparr> link = ''https://x.test/nl/bar-baz'', images = [''https://x.test/b.jpg''],
             mapIframe = None \<rparr>]
         (buildIndex simpleURL
            [\<lparr> link = ''https://x.test/nl/foo-tour'', images = [''https://x.test/a.jpg''],
                mapIframe = None \<rparr>,
             \<lparr> link = ''https://x.test/nl/bar-baz'', images = [''https://x.test/b.jpg''],
                mapIframe = None \<rparr>])
         [(''slug'', JStr ''/golfreizen/nl/bar-baz''),
          (''old_urls'', JStr ''https://x.test/nl/golfreis/foo-tour'')]
       = Some \<lparr> link = ''https://x.test/nl/foo-tour'', images = [''https://x.test/a.jpg''],
                 mapIframe = None \<rparr>"
proof -
  let ?a = "\<lparr> link = ''https://x.test/nl/foo-tour'', images = [''https://x.test/a.jpg''],
              mapIframe = None \<rparr>"
  let ?b = "\<lparr> link = ''https://x.test/nl/bar-baz'', images = [''https://x.test/b.jpg''],
              mapIframe = None \<rparr>"
  let ?product = "[(''slug'', JStr ''/golfreizen/nl/bar-baz''),
                   (''old_urls'', JStr ''https://x.test/nl/golfreis/foo-tour'')]"
  let ?cands = "concat (map (deriveCandidatesFromOldUrl simpleURL) (oldUrlsOf ?product))"
  have c: "?cands = [''https://x.test/nl/golfreis/foo-tour'', ''https://x.test/nl/foo-tour'']"
    by code_simp
  have h1: "''https://x.test/nl/foo-tour'' \<in> set ?cands"
    by (simp add: c)
  have i: "buildIndex simpleURL [?a, ?b] ''https://x.test/nl/foo-tour'' = Some ?a"
    by code_simp
  then have h2: "buildIndex simpleURL [?a, ?b] ''https://x.test/nl/foo-tour'' \<noteq> None"
    by simp
  have t3: "tier3 [?a, ?b] ''/golfreizen/nl/bar-baz'' = Some ?b"
    by code_simp
  have f: "firstHit (buildIndex simpleURL [?a, ?b]) ?cands = Some ?a"
    by code_simp
  from tier_priority [OF h1 h2, of "[?a, ?b]"] f
  have "findPageMatch simpleURL [?a, ?b] (buildIndex simpleURL [?a, ?b]) ?product = Some ?a"
    by auto
  with h1 t3 show ?thesis by simp
qed

section \<open>Tail fallback\<close>

text \<open>
  C5. Tier 2 takes the first of the distinct tails for which some page link contains
  \<^verbatim>\<open>/tail/\<close> or ends with \<^verbatim>\<open>/tail\<close>, and only the pages found for that tail;
  later tails add nothing. From these candidates the pages whose link contains
  \<^verbatim>\<open>/nl/\<close> are kept if there are any, all candidates otherwise, and a page with the
  shortest link among those kept is returned. With two candidates of link lengths 20
  and 30, neither under \<^verbatim>\<open>/nl/\<close>, the one of length 20 is returned, in either order.
\<close>

theorem tail_fallback:
  "tier2 U pages oldUrls
     = (case find (\<lambda>t. tailHits pages t \<noteq> []) (uniqTails U oldUrls) of
          None \<Rightarrow> None
        | Some t \<Rightarrow> preferBestMatch (tailHits pages t) NL)
   \<and> distinct (uniqTails U oldUrls)
   \<and> (\<forall>p t. p \<in> set (tailHits pages t)
          \<longleftrightarrow> p \<in> set pages
               \<and> (includesStr (link p) (''/'' @ t @ ''/'') \<or> endsWith (link p) (''/'' @ t)))
   \<and> (candidates \<noteq> []
        \<longrightarrow> (\<exists>p. preferBestMatch candidates NL = Some p
                \<and> p \<in> set candidates
                \<and> ((\<exists>c\<in>set candidates. includesStr (link c) ''/nl/'')
                      \<longrightarrow> includesStr (link p) ''/nl/'')
                \<and> (\<forall>c\<in>set candidates.
                      includesStr (link c) ''/nl/''
                      \<or> \<not> (\<exists>c'\<in>set candidates. includesStr (link c') ''/nl/'')
                      \<longrightarrow> length (link p) \<le> length (link c))))
   \<and> (length (link a) = 20 \<and> length (link b) = 30
        \<and> \<not> includesStr (link a) ''/nl/'' \<and> \<not> includesStr (link b) ''/nl/''
        \<longrightarrow> preferBestMatch [a, b] NL = Some a \<and> preferBestMatch [b, a] NL = Some a)"
  (is "?A \<and> ?B \<and> ?C \<and> ?D \<and> ?E")
proof -
  have A: ?A
  proof (cases "find (\<lambda>t. tailHits pages t \<noteq> []) (uniqTails U oldUrls)")
    case None
    then show ?thesis by (simp add: tier2_def Let_def scanTails_first)
  next
    case (Some t)
    then have "tailHits pages t \<noteq> []" by (auto simp: find_Some_iff)
    with Some show ?thesis by (simp add: tier2_def Let_def scanTails_first)
  qed
  have B: ?B by (simp add: uniqTails_def uniq_distinct)
  have C: ?C by (auto simp: tailHits_def)
  have D: ?D using preferBestMatch_pool [of candidates NL] by simp
  have E: ?E using preferBestMatch_two [of a b NL] by simp
  from A B C D E show ?thesis by blast
qed

theorem tail_fallback_witness:
  "length (link \<lparr> link = ''https://x.test/a/foo'', images = [], mapIframe = None \<rparr>) = 20
   \<and> length (link \<lparr> link = ''https://x.test/en/bbbbbbbb/foo'', images = [],
                     mapIframe = None \<rparr>) = 30
   \<and> tailHits [\<lparr> link = ''https://x.test/en/bbbbbbbb/foo'', images = [], mapIframe = None \<rparr>,
                \<lparr> link = ''https://x.test/a/foo'', images = [], mapIframe = None \<rparr>] ''foo''
       = [\<lparr> link = ''https://x.test/en/bbbbbbbb/foo'', images = [], mapIframe = None \<rparr>,
          \<lparr> link = ''https://x.test/a/foo'', images = [], mapIframe = None \<rparr>]
   \<and> tier2 simpleURL
         [\<lparr> link = ''https://x.test/en/bbbbbbbb/foo'', images = [], mapIframe = None \<rparr>,
          \<lparr> link = ''https://x.test/a/foo'', images = [], mapIframe = None \<rparr>]
         [''https://old.test/x/foo'']
       = Some \<lparr> link = ''https://x.test/a/foo'', images = [], mapIframe = None \<rparr>"
proof -
  let ?a = "\<lparr> link = ''https://x.test/a/foo'', images = [], mapIframe = None \<rparr>"
  let ?b = "\<lparr> link = ''https://x.test/en/bbbbbbbb/foo'', images = [], mapIframe = None \<rparr>"
  have la: "length (link ?a) = 20" by simp
  have lb: "length (link ?b) = 30" by simp
  have na: "\<not> includesStr (link ?a) ''/nl/''" by code_simp
  have nb: "\<not> includesStr (link ?b) ''/nl/''" by code_simp
  have h: "tailHits [?b, ?a] ''foo'' = [?b, ?a]" by code_simp
  have f: "find (\<lambda>t. tailHits [?b, ?a] t \<noteq> []) (uniqTails simpleURL [''https://old.test/x/foo''])
             = Some ''foo''"
    by code_simp
  note t = tail_fallback [of simpleURL "[?b, ?a]" "[''https://old.test/x/foo'']" "[?b, ?a]" ?a ?b]
  from t la lb na nb have p: "preferBestMatch [?b, ?a] NL = Some ?a" by blast
  from t have "tier2 simpleURL [?b, ?a] [''https://old.test/x/foo'']
                 = (case find (\<lambda>t. tailHits [?b, ?a] t \<noteq> [])
                           (uniqTails simpleURL [''https://old.test/x/foo'']) of
                      None \<Rightarrow> None
                    | Some t \<Rightarrow> preferBestMatch (tailHits [?b, ?a] t) NL)"
    by blast
  then have "tier2 simpleURL [?b, ?a] [''https://old.test/x/foo''] = Some ?a"
    by (simp only: f option.case h p)
  with la lb h show ?thesis by simp
qed

section \<open>Splitting\<close>

text \<open>
  C8. \<^verbatim>\<open>splitOldUrls\<close> cuts its input at every separator: a run of commas, semicolons
  and line feeds with the white space around it, or two or more white-space characters.
  \<^item> On the example of the specification it returns the four addresses; four spaces or
    two tabs between two addresses separate them, one space does not.
  \<^item> A separator put between any two strings separates them: the result is the pieces
    of the left string followed by the pieces of the right string.
  \<^item> An input without a separator character and without two adjacent white-space
    characters is returned as one piece, trimmed; an input of white space, commas and
    semicolons only gives no piece.
  \<^item> The result is that of \<^const>\<open>splitOldUrlsSpec\<close>, the split worded after the
    specification.
  \<^item> Every piece returned is non-empty and trimmed and contains neither a separator
    character nor two adjacent white-space characters, and the characters that no
    separator can contain come out in their order, none lost and none added.
\<close>

theorem splitOldUrls_spec:
  "splitOldUrls (''a.com'' @ [CHR 0x0A] @ ''b.com; c.com,,  d.com'')
     = [''a.com'', ''b.com'', ''c.com'', ''d.com'']
   \<and> splitOldUrls ''a.com    b.com'' = [''a.com'', ''b.com'']
   \<and> splitOldUrls (''a.com'' @ [CHR 0x09, CHR 0x09] @ ''b.com'') = [''a.com'', ''b.com'']
   \<and> splitOldUrls ''a.com b.com'' = [''a.com b.com'']
   \<and> (isSeparator sep \<longrightarrow> splitOldUrls (a @ sep @ b) = splitOldUrls a @ splitOldUrls b)
   \<and> ((\<forall>c\<in>set s. \<not> isSepChar c) \<and> noDoubleSpace s \<and> trim s \<noteq> []
        \<longrightarrow> splitOldUrls s = [trim s])
   \<and> ((\<forall>c\<in>set s. \<not> isPayloadChar c) \<longrightarrow> splitOldUrls s = [])
   \<and> splitOldUrls s = splitOldUrlsSpec s
   \<and> (\<forall>f\<in>set (splitOldUrls s).
         f \<noteq> [] \<and> trim f = f \<and> (\<forall>c\<in>set f. \<not> isSepChar c) \<and> noDoubleSpace f)
   \<and> filter isPayloadChar (concat (splitOldUrls s)) = filter isPayloadChar s"
proof -
  have 1: "splitOldUrls (''a.com'' @ [CHR 0x0A] @ ''b.com; c.com,,  d.com'')
          = [''a.com'', ''b.com'', ''c.com'', ''d.com'']"
    by code_simp
  have 2: "splitOldUrls ''a.com    b.com'' = [''a.com'', ''b.com'']"
    by code_simp
  have 3: "splitOldUrls (''a.com'' @ [CHR 0x09, CHR 0x09] @ ''b.com'') = [''a.com'', ''b.com'']"
    by code_simp
  have 4: "splitOldUrls ''a.com b.com'' = [''a.com b.com'']"
    by code_simp
  show ?thesis
    using 1 2 3 4 splitOldUrls_inserted_separator [of sep a b] splitOldUrls_no_sep [of s]
      splitOldUrls_no_payload [of s] splitOldUrls_refines [of s]
      splitOldUrls_fragment [of _ s] splitOldUrls_payload [of s]
    by blast
qed

theorem splitOldUrls_spec_witness:
  "isSeparator ''    ''
   \<and> splitOldUrls (''a.com'' @ ''    '' @ ''b.com'') = splitOldUrls ''a.com'' @ splitOldUrls ''b.com''
   \<and> splitOldUrls ''a.com'' = [''a.com'']
   \<and> noDoubleSpace '' x.test/a b''
   \<and> trim '' x.test/a b'' = ''x.test/a b''
   \<and> splitOldUrls '' x.test/a b'' = [''x.test/a b'']
   \<and> splitOldUrls '' '' = []
   \<and> filter isPayloadChar (concat (splitOldUrls '' x.test/a,  b '')) = ''x.test/ab''"
proof -
  have s: "isSeparator ''    ''" by code_simp
  from splitOldUrls_spec [where sep = "''    ''" and a = "''a.com''" and b = "''b.com''"] s
  have i: "splitOldUrls (''a.com'' @ ''    '' @ ''b.com'')
             = splitOldUrls ''a.com'' @ splitOldUrls ''b.com''" by blast
  have a1: "\<forall>c\<in>set ''a.com''. \<not> isSepChar c" by code_simp
  have a2: "noDoubleSpace ''a.com''" by code_simp
  have a3: "trim ''a.com'' = ''a.com''" by code_simp
  then have a4: "trim ''a.com'' \<noteq> []" by simp
  from splitOldUrls_spec [where s = "''a.com''"] a1 a2 a4
  have "splitOldUrls ''a.com'' = [trim ''a.com'']" by blast
  then have a: "splitOldUrls ''a.com'' = [''a.com'']" by (simp only: a3)
  have h1: "\<forall>c\<in>set '' x.test/a b''. \<not> isSepChar c" by code_simp
  have h2: "noDoubleSpace '' x.test/a b''" by code_simp
  have t: "trim '' x.test/a b'' = ''x.test/a b''" by code_simp
  then have h3: "trim '' x.test/a b'' \<noteq> []" by simp
  from splitOldUrls_spec [where s = "'' x.test/a b''"] h1 h2 h3
  have "splitOldUrls '' x.test/a b'' = [trim '' x.test/a b'']" by blast
  then have d: "splitOldUrls '' x.test/a b'' = [''x.test/a b'']" by (simp only: t)
  have e1: "\<forall>c\<in>set '' ''. \<not> isPayloadChar c" by code_simp
  from splitOldUrls_spec [where s = "'' ''"] e1
  have e: "splitOldUrls '' '' = []" by blast
  have "filter isPayloadChar '' x.test/a,  b '' = ''x.test/ab''" by code_simp
  moreover from splitOldUrls_spec [where s = "'' x.test/a,  b ''"]
  have "filter isPayloadChar (concat (splitOldUrls '' x.test/a,  b ''))
          = filter isPayloadChar '' x.test/a,  b ''" by blast
  ultimately have p: "filter isPayloadChar (concat (splitOldUrls '' x.test/a,  b '')) = ''x.test/ab''"
    by simp
  from s i a h2 t d e p show ?thesis by (intro conjI)
qed

section \<open>Candidate derivation\<close>

text \<open>
  C2 does not hold as stated: the rewrites of the source collapse the segment
  \<^verbatim>\<open>/golfreis/\<close>, not \<^verbatim>\<open>/golfreizen/\<close>. For the legacy URL
  \<^verbatim>\<open>https://x.test/nl/golfreizen/foo-tour\<close> the derivation yields the URL itself and
  nothing else, and tier 1 finds no page.
\<close>

theorem candidate_derivation_golfreizen_not_rewritten:
  "deriveCandidatesFromOldUrl simpleURL ''https://x.test/nl/golfreizen/foo-tour''
     = [''https://x.test/nl/golfreizen/foo-tour'']
   \<and> ''https://x.test/nl/foo-tour''
       \<notin> set (deriveCandidatesFromOldUrl simpleURL ''https://x.test/nl/golfreizen/foo-tour'')
   \<and> tier1 simpleURL
         (buildIndex simpleURL
            (loadPages simpleURL
               [JObj [(''link'', JStr ''https://x.test/nl/foo-tour''),
                      (''images'', JArr [JStr ''https://x.test/a.jpg''])]]))
         (oldUrlsOf [(''slug'', JStr ''/golfreizen/nl/foo-tour''),
                     (''old_urls'', JStr ''https://x.test/nl/golfreizen/foo-tour'')])
       = None"
  by code_simp

text \<open>
  C2, amended. The derived candidates are the full and the no-query normalised form
  and, for each of the two, the results of replacing the first \<^verbatim>\<open>/nl/golfreis/\<close> by
  \<^verbatim>\<open>/nl/\<close>, the first \<^verbatim>\<open>/en/golfreis/\<close> by \<^verbatim>\<open>/en/\<close> and the first
  \<^verbatim>\<open>/golfreis/\<close> by \<^verbatim>\<open>/\<close>, each value once, in this order. For the example
  product the derivation yields only the legacy URL, tier 1 misses, tier 2 finds the
  page by the tail \<^verbatim>\<open>foo-tour\<close>, and the run ends with the product carrying the
  page's image and the counters at one matched and none unmatched. With the legacy URL
  \<^verbatim>\<open>https://x.test/nl/golfreis/foo-tour\<close> the derivation does yield
  \<^verbatim>\<open>https://x.test/nl/foo-tour\<close> and tier 1 hits.
\<close>

theorem candidate_derivation:
  "deriveCandidatesFromOldUrl U oldUrl
     = uniq [] [full (normalizeForMatch U oldUrl), noQuery (normalizeForMatch U oldUrl),
                replaceFirst ''/nl/golfreis/'' ''/nl/'' (full (normalizeForMatch U oldUrl)),
                replaceFirst ''/en/golfreis/'' ''/en/'' (full (normalizeForMatch U oldUrl)),
                replaceFirst ''/golfreis/'' ''/'' (full (normalizeForMatch U oldUrl)),
                replaceFirst ''/nl/golfreis/'' ''/nl/'' (noQuery (normalizeForMatch U oldUrl)),
                replaceFirst ''/en/golfreis/'' ''/en/'' (noQuery (normalizeForMatch U oldUrl)),
                replaceFirst ''/golfreis/'' ''/'' (noQuery (normalizeForMatch U oldUrl))]
   \<and> distinct (deriveCandidatesFromOldUrl U oldUrl)
   \<and> set (deriveCandidatesFromOldUrl U oldUrl)
       = {full (normalizeForMatch U oldUrl), noQuery (normalizeForMatch U oldUrl),
          replaceFirst ''/nl/golfreis/'' ''/nl/'' (full (normalizeForMatch U oldUrl)),
          replaceFirst ''/en/golfreis/'' ''/en/'' (full (normalizeForMatch U oldUrl)),
          replaceFirst ''/golfreis/'' ''/'' (full (normalizeForMatch U oldUrl)),
          replaceFirst ''/nl/golfreis/'' ''/nl/'' (noQuery (normalizeForMatch U oldUrl)),
          replaceFirst ''/en/golfreis/'' ''/en/'' (noQuery (normalizeForMatch U oldUrl)),
          replaceFirst ''/golfreis/'' ''/'' (noQuery (normalizeForMatch U oldUrl))}
   \<and> deriveCandidatesFromOldUrl simpleURL ''https://x.test/nl/golfreizen/foo-tour''
       = [''https://x.test/nl/golfreizen/foo-tour'']
   \<and> loadPages simpleURL
         [JObj [(''link'', JStr ''https://x.test/nl/foo-tour''),
                (''images'', JArr [JStr ''https://x.test/a.jpg''])]]
       = [\<lparr> link = ''https://x.test/nl/foo-tour'', images = [''https://x.test/a.jpg''],
             mapIframe = None \<rparr>]
   \<and> tier1 simpleURL
         (buildIndex simpleURL
            [\<lparr> link = ''https://x.test/nl/foo-tour'', images = [''https://x.test/a.jpg''],
                mapIframe = None \<rparr>])
         [''https://x.test/nl/golfreizen/foo-tour'']
       = None
   \<and> tier2 simpleURL
         [\<lparr> link = ''https://x.test/nl/foo-tour'', images = [''https://x.test/a.jpg''],
             mapIframe = None \<rparr>]
         [''https://x.test/nl/golfreizen/foo-tour'']
       = Some \<lparr> link = ''https://x.test/nl/foo-tour'', images = [''https://x.test/a.jpg''],
                 mapIframe = None \<rparr>
   \<and> main simpleURL None
         [[(''slug'', JStr ''/golfreizen/nl/foo-tour''),
           (''old_urls'', JStr ''https://x.test/nl/golfreizen/foo-tour'')]]
         [JObj [(''link'', JStr ''https://x.test/nl/foo-tour''),
                (''images'', JArr [JStr ''https://x.test/a.jpg''])]]
       = \<lparr> written = [[(''slug'', JStr ''/golfreizen/nl/foo-tour''),
                       (''old_urls'', JStr ''https://x.test/nl/golfreizen/foo-tour''),
                       (''images'', JArr [JStr ''https://x.test/a.jpg''])]],
           summaryCount = 1, summaryMatched = 1, summaryUnmatched = 0, diagnostics = [] \<rparr>
   \<and> deriveCandidatesFromOldUrl simpleURL ''https://x.test/nl/golfreis/foo-tour''
       = [''https://x.test/nl/golfreis/foo-tour'', ''https://x.test/nl/foo-tour'']
   \<and> tier1 simpleURL
         (buildIndex simpleURL
            [\<lparr> link = ''https://x.test/nl/foo-tour'', images = [''https://x.test/a.jpg''],
                mapIframe = None \<rparr>])
         [''https://x.test/nl/golfreis/foo-tour'']
       = Some \<lparr> link = ''https://x.test/nl/foo-tour'', images = [''https://x.test/a.jpg''],
                 mapIframe = None \<rparr>"
  (is "?A \<and> ?B \<and> ?C \<and> ?D \<and> ?E \<and> ?F \<and> ?G \<and> ?H \<and> ?I \<and> ?J")
proof -
  have A: ?A
    by (simp only: deriveCandidatesFromOldUrl_def Let_def list.map concat.simps append.simps)
  have B: ?B unfolding A by (rule uniq_distinct) simp
  have C: ?C unfolding A by (simp only: uniq_set list.set Un_empty_left)
  have D: ?D by code_simp
  have E: ?E by code_simp
  have F: ?F by code_simp
  have G: ?G by code_simp
  have H: ?H by code_simp
  have I: ?I by code_simp
  have J: ?J by code_simp
  from A B C D E F G H I J show ?thesis by (intro conjI)
qed

theorem candidate_derivation_witness:
  "set (deriveCandidatesFromOldUrl simpleURL ''https://x.test/en/golfreis/bar?x=1'')
     = {''https://x.test/en/golfreis/bar?x=1'', ''https://x.test/en/golfreis/bar'',
        ''https://x.test/en/bar?x=1'', ''https://x.test/en/bar''}
   \<and> distinct (deriveCandidatesFromOldUrl simpleURL ''https://x.test/en/golfreis/bar?x=1'')"
proof -
  have k: "normalizeForMatch simpleURL ''https://x.test/en/golfreis/bar?x=1''
             = \<lparr> full = ''https://x.test/en/golfreis/bar?x=1'',
                 noQuery = ''https://x.test/en/golfreis/bar'' \<rparr>"
    by code_simp
  have r: "replaceFirst ''/nl/golfreis/'' ''/nl/'' ''https://x.test/en/golfreis/bar?x=1'' = ''https://x.test/en/golfreis/bar?x=1''"
    "replaceFirst ''/en/golfreis/'' ''/en/'' ''https://x.test/en/golfreis/bar?x=1'' = ''https://x.test/en/bar?x=1''"
    "replaceFirst ''/golfreis/'' ''/'' ''https://x.test/en/golfreis/bar?x=1'' = ''https://x.test/en/bar?x=1''"
    "replaceFirst ''/nl/golfreis/'' ''/nl/'' ''https://x.test/en/golfreis/bar'' = ''https://x.test/en/golfreis/bar''"
    "replaceFirst ''/en/golfreis/'' ''/en/'' ''https://x.test/en/golfreis/bar'' = ''https://x.test/en/bar''"
    "replaceFirst ''/golfreis/'' ''/'' ''https://x.test/en/golfreis/bar'' = ''https://x.test/en/bar''"
    by code_simp+
  from candidate_derivation [of simpleURL "''https://x.test/en/golfreis/bar?x=1''"]
  have "set (deriveCandidatesFromOldUrl simpleURL ''https://x.test/en/golfreis/bar?x=1'')
       = {full (normalizeForMatch simpleURL ''https://x.test/en/golfreis/bar?x=1''), noQuery (normalizeForMatch simpleURL ''https://x.test/en/golfreis/bar?x=1''),
          replaceFirst ''/nl/golfreis/'' ''/nl/'' (full (normalizeForMatch simpleURL ''https://x.test/en/golfreis/bar?x=1'')),
          replaceFirst ''/en/golfreis/'' ''/en/'' (full (normalizeForMatch simpleURL ''https://x.test/en/golfreis/bar?x=1'')),
          replaceFirst ''/golfreis/'' ''/'' (full (normalizeForMatch simpleURL ''https://x.test/en/golfreis/bar?x=1'')),
          replaceFirst ''/nl/golfreis/'' ''/nl/'' (noQuery (normalizeForMatch simpleURL ''https://x.test/en/golfreis/bar?x=1'')),
          replaceFirst ''/en/golfreis/'' ''/en/'' (noQuery (normalizeForMatch simpleURL ''https://x.test/en/golfreis/bar?x=1'')),
          replaceFirst ''/golfreis/'' ''/'' (noQuery (normalizeForMatch simpleURL ''https://x.test/en/golfreis/bar?x=1''))}"
    and d: "distinct (deriveCandidatesFromOldUrl simpleURL ''https://x.test/en/golfreis/bar?x=1'')"
    by blast+
  then have "set (deriveCandidatesFromOldUrl simpleURL ''https://x.test/en/golfreis/bar?x=1'')
     = {''https://x.test/en/golfreis/bar?x=1'', ''https://x.test/en/golfreis/bar'',
        ''https://x.test/en/golfreis/bar?x=1'', ''https://x.test/en/bar?x=1'', ''https://x.test/en/bar?x=1'',
        ''https://x.test/en/golfreis/bar'', ''https://x.test/en/bar'', ''https://x.test/en/bar''}"
    by (simp only: k match_keys.simps r)
  with d show ?thesis by auto
qed

end
